theory Spec2Isabelle
  imports Complex_Main "HOL-Library.AList" "HOL-Library.Multiset"
begin

section \<open>Data model of the coordinator agent\<close>

text \<open>
  The coordinator (\<^verbatim>\<open>agents/coordinator\<close>) works on the \<^verbatim>\<open>Task\<close> interface of
  \<^verbatim>\<open>agents/base-agent\<close>. Only the fields that the coordinator's algorithms read are kept:
  \<^verbatim>\<open>id\<close>, \<^verbatim>\<open>priority\<close>, \<^verbatim>\<open>assignedAgent\<close>, \<^verbatim>\<open>dependencies\<close>, \<^verbatim>\<open>estimatedHours\<close> and
  \<^verbatim>\<open>labels\<close>. The priority is the run-time string of the \<^verbatim>\<open>Priority\<close> enum, because
  \<^verbatim>\<open>decomposeTask\<close> casts an arbitrary string to it. \<^verbatim>\<open>estimatedHours\<close> is a JavaScript number;
  it is modelled as a real number (rounding and NaN are not modelled).
  Strings are lists of characters; a JavaScript \<^verbatim>\<open>Map\<close> is an association list in insertion
  order, with \<^const>\<open>AList.update\<close> for \<^verbatim>\<open>Map.set\<close> and \<^const>\<open>map_of\<close> for \<^verbatim>\<open>Map.get\<close>.
\<close>

record Task =
  task_id :: string
  priority :: string
  assignedAgent :: "string option"
  dependencies :: "string list"
  estimatedHours :: real
  labels :: "string list"

record AgentAssignment =
  taskId :: string
  agentType :: string
  assignment_priority :: int

definition P0_CRITICAL :: string where "P0_CRITICAL = ''P0-Critical''"
definition P1_HIGH :: string where "P1_HIGH = ''P1-High''"
definition P2_MEDIUM :: string where "P2_MEDIUM = ''P2-Medium''"
definition P3_LOW :: string where "P3_LOW = ''P3-Low''"

section \<open>Agent assignment\<close>

text \<open>
  \<^verbatim>\<open>String.prototype.toLowerCase\<close>, on the ASCII letters. The substrings looked for are
  ASCII, and no non-ASCII character lower-cases to one of their letters followed by the
  next letter of the word, so the other characters are left as they are.
\<close>

definition toLowerChar :: "char \<Rightarrow> char" where
  "toLowerChar c =
     (let n = (of_char c :: nat) in if 65 \<le> n \<and> n \<le> 90 then char_of (n + 32) else c)"

definition toLowerCase :: "string \<Rightarrow> string" where
  "toLowerCase s = map toLowerChar s"

text \<open>\<^verbatim>\<open>l.includes(s)\<close>: \<open>s\<close> occurs in \<open>l\<close> as a contiguous substring.\<close>

fun includes_str :: "string \<Rightarrow> string \<Rightarrow> bool" where
  "includes_str [] s = (s = [])"
| "includes_str (c # cs) s = (take (length s) (c # cs) = s \<or> includes_str cs s)"

text \<open>\<^verbatim>\<open>Array.prototype.some\<close>.\<close>

definition some :: "('a \<Rightarrow> bool) \<Rightarrow> 'a list \<Rightarrow> bool" where
  "some p xs = list_ex p xs"

text \<open>The label heuristics of \<^verbatim>\<open>determineAgentType\<close>, tried in the order of the source.\<close>

definition agentTypeByLabels :: "string list \<Rightarrow> string" where
  "agentTypeByLabels task_labels =
     (let ls = map toLowerCase task_labels in
      if some (\<lambda>l. includes_str l ''test'') ls then ''test''
      else if some (\<lambda>l. includes_str l ''deploy'') ls then ''deploy''
      else if some (\<lambda>l. includes_str l ''review'') ls then ''review''
      else if some (\<lambda>l. includes_str l ''pr'' \<or> includes_str l ''pull'') ls then ''pr''
      else if some (\<lambda>l. includes_str l ''issue'') ls then ''issue''
      else ''codegen'')"

text \<open>
  \<^verbatim>\<open>if (task.assignedAgent)\<close> tests truthiness: an absent role and the empty string are
  both falsy and both fall through to the labels.
\<close>

definition determineAgentType :: "Task \<Rightarrow> string" where
  "determineAgentType t =
     (case assignedAgent t of
        None \<Rightarrow> agentTypeByLabels (labels t)
      | Some a \<Rightarrow> if a \<noteq> [] then a else agentTypeByLabels (labels t))"

definition getPriorityValue :: "string \<Rightarrow> int" where
  "getPriorityValue p =
     (if p = P0_CRITICAL then 4
      else if p = P1_HIGH then 3
      else if p = P2_MEDIUM then 2
      else if p = P3_LOW then 1
      else 0)"

definition mkAssignment :: "Task \<Rightarrow> AgentAssignment" where
  "mkAssignment t =
     \<lparr>taskId = task_id t, agentType = determineAgentType t,
      assignment_priority = getPriorityValue (priority t)\<rparr>"

text \<open>
  \<^verbatim>\<open>assignments.sort((a, b) => b.priority - a.priority)\<close>: \<^verbatim>\<open>Array.prototype.sort\<close> is a
  stable sort (ECMAScript 2019), here by descending priority, that is by ascending negated
  priority; \<^const>\<open>sort_key\<close> is the stable insertion sort.
\<close>

definition assignAgents :: "Task list \<Rightarrow> AgentAssignment list" where
  "assignAgents tasks = sort_key (\<lambda>a. - assignment_priority a) (map mkAssignment tasks)"

subsection \<open>The assignment rule in the words of the specification\<close>

text \<open>
  A label matches a word case-insensitively when some contiguous part of the label
  lower-cases to the word.
\<close>

definition label_match :: "Task \<Rightarrow> string \<Rightarrow> bool" where
  "label_match t w = (\<exists>l \<in> set (labels t). \<exists>p u q. l = p @ u @ q \<and> toLowerCase u = w)"

definition explicit_role :: "Task \<Rightarrow> bool" where
  "explicit_role t = (assignedAgent t \<noteq> None \<and> assignedAgent t \<noteq> Some [])"

definition spec_role :: "Task \<Rightarrow> string" where
  "spec_role t =
     (if explicit_role t then the (assignedAgent t)
      else if label_match t ''test'' then ''test''
      else if label_match t ''deploy'' then ''deploy''
      else if label_match t ''review'' then ''review''
      else if label_match t ''pr'' \<or> label_match t ''pull'' then ''pr''
      else if label_match t ''issue'' then ''issue''
      else ''codegen'')"

definition spec_weight :: "string \<Rightarrow> int" where
  "spec_weight p =
     (if p = ''P0-Critical'' then 4 else if p = ''P1-High'' then 3
      else if p = ''P2-Medium'' then 2 else if p = ''P3-Low'' then 1 else 0)"

definition spec_assignment :: "Task \<Rightarrow> AgentAssignment" where
  "spec_assignment t =
     \<lparr>taskId = task_id t, agentType = spec_role t,
      assignment_priority = spec_weight (priority t)\<rparr>"

definition c9_tasks :: "Task list" where
  "c9_tasks =
     [\<lparr>task_id = ''T1'', priority = ''P3-Low'', assignedAgent = None, dependencies = [],
       estimatedHours = 1, labels = [''type:TEST'']\<rparr>,
      \<lparr>task_id = ''T2'', priority = ''P0-Critical'', assignedAgent = None, dependencies = [],
       estimatedHours = 1, labels = [''docs'']\<rparr>,
      \<lparr>task_id = ''T3'', priority = ''P2-Medium'', assignedAgent = Some ''review'',
       dependencies = [], estimatedHours = 1, labels = [''deploy'']\<rparr>,
      \<lparr>task_id = ''T4'', priority = ''P2-Medium'', assignedAgent = Some [],
       dependencies = [], estimatedHours = 1, labels = [''Pull-Request'']\<rparr>]"

section \<open>Graph builder\<close>

text \<open>
  What the code throws: \<^verbatim>\<open>new Error(message)\<close>, or the \<^verbatim>\<open>TypeError\<close> that the run time
  raises when a property of \<^verbatim>\<open>undefined\<close> is read (the source silences the compiler with
  a non-null assertion at \<^verbatim>\<open>nodes.get(nodeId)!\<close>).
\<close>

datatype error = Error string | TypeError

record DAGNode =
  task :: Task
  node_dependencies :: "string list"
  dependents :: "string list"
  level :: int

text \<open>
  \<^verbatim>\<open>levels: DAGNode[][]\<close> holds references to the node objects of \<^verbatim>\<open>nodes\<close>; a reference
  is the node's key in the map. An index of \<^verbatim>\<open>levels\<close> that was never assigned reads as
  \<^verbatim>\<open>undefined\<close>; it is the empty list here, which no assigned index ever is, because a level
  is created by the push of its first node.
\<close>

record DAG =
  nodes :: "(string \<times> DAGNode) list"
  levels :: "string list list"
  criticalPath :: "string list"

text \<open>The first loop of \<^verbatim>\<open>buildDAG\<close>: one node per task, a later task replacing an
  earlier one of the same id.\<close>

definition createNodes :: "Task list \<Rightarrow> (string \<times> DAGNode) list" where
  "createNodes tasks =
     foldl (\<lambda>ns t. AList.update (task_id t)
              \<lparr>task = t, node_dependencies = dependencies t, dependents = [], level = 0\<rparr> ns)
       [] tasks"

text \<open>\<^verbatim>\<open>const depNode = nodes.get(depId); if (depNode) depNode.dependents.push(nodeId)\<close>\<close>

definition addDependent ::
  "(string \<times> DAGNode) list \<Rightarrow> string \<Rightarrow> string \<Rightarrow> (string \<times> DAGNode) list" where
  "addDependent ns nodeId depId =
     (case map_of ns depId of
        None \<Rightarrow> ns
      | Some depNode \<Rightarrow>
          AList.update depId (depNode\<lparr>dependents := dependents depNode @ [nodeId]\<rparr>) ns)"

text \<open>The second loop: over the entries of \<^verbatim>\<open>nodes\<close> and the dependencies of each. The
  loop changes no key and no dependency list, so it runs over the entries as they were.\<close>

definition linkDependents :: "(string \<times> DAGNode) list \<Rightarrow> (string \<times> DAGNode) list" where
  "linkDependents ns =
     foldl (\<lambda>ns' (nodeId, node). foldl (\<lambda>ns'' depId. addDependent ns'' nodeId depId) ns'
                                    (node_dependencies node))
       ns ns"

text \<open>The variables that the closure \<^verbatim>\<open>visit\<close> reads and writes.\<close>

record visit_state =
  st_nodes :: "(string \<times> DAGNode) list"
  st_levels :: "string list list"
  visited :: "string set"
  inProgress_dfs :: "string set"

text \<open>\<^verbatim>\<open>if (!levels[l]) levels[l] = []; levels[l].push(node)\<close>; assigning beyond the end
  of the array leaves the indices in between unassigned.\<close>

definition push_level :: "string list list \<Rightarrow> int \<Rightarrow> string \<Rightarrow> string list list" where
  "push_level lvls l nodeId =
     (let i = nat l;
          lvls' = (if i < length lvls then lvls else lvls @ replicate (Suc i - length lvls) [])
      in lvls'[i := lvls' ! i @ [nodeId]])"

text \<open>The end of \<^verbatim>\<open>visit\<close>, after the loop over the dependencies: the level is written
  into the node object, the node moves from \<^verbatim>\<open>inProgress\<close> to \<^verbatim>\<open>visited\<close> and is pushed on
  its level.\<close>

definition finish_node :: "string \<Rightarrow> int \<Rightarrow> visit_state \<Rightarrow> int \<times> visit_state" where
  "finish_node nodeId maxDepLevel st =
     (let l = maxDepLevel + 1 in
      (l, st\<lparr>st_nodes := AList.map_entry nodeId (\<lambda>node. node\<lparr>level := l\<rparr>) (st_nodes st),
              visited := insert nodeId (visited st),
              inProgress_dfs := inProgress_dfs st - {nodeId},
              st_levels := push_level (st_levels st) l nodeId\<rparr>))"

text \<open>
  \<^verbatim>\<open>visit\<close> and its loop \<^verbatim>\<open>for (const depId of node.dependencies) maxDepLevel =
  Math.max(maxDepLevel, visit(depId))\<close>. A key that is not in the map makes
  \<^verbatim>\<open>nodes.get(nodeId)!\<close> undefined, and reading its \<^verbatim>\<open>dependencies\<close> throws.
\<close>

function visit :: "string \<Rightarrow> visit_state \<Rightarrow> error + int \<times> visit_state"
  and visit_deps :: "string list \<Rightarrow> int \<Rightarrow> visit_state \<Rightarrow> error + int \<times> visit_state" where
  "visit nodeId st =
     (if nodeId \<in> visited st then
        (case map_of (st_nodes st) nodeId of
           None \<Rightarrow> Inl TypeError
         | Some node \<Rightarrow> Inr (level node, st))
      else if nodeId \<in> inProgress_dfs st then
        Inl (Error (''Circular dependency detected at '' @ nodeId))
      else
        (case map_of (st_nodes st) nodeId of
           None \<Rightarrow> Inl TypeError
         | Some node \<Rightarrow>
             (case visit_deps (node_dependencies node) (- 1)
                     (st\<lparr>inProgress_dfs := insert nodeId (inProgress_dfs st)\<rparr>) of
                Inl e \<Rightarrow> Inl e
              | Inr (maxDepLevel, st') \<Rightarrow> Inr (finish_node nodeId maxDepLevel st'))))"
| "visit_deps [] maxDepLevel st = Inr (maxDepLevel, st)"
| "visit_deps (depId # ds) maxDepLevel st =
     (case visit depId st of
        Inl e \<Rightarrow> Inl e
      | Inr (l, st') \<Rightarrow> visit_deps ds (max maxDepLevel l) st')"
  by pat_completeness auto

text \<open>\<^verbatim>\<open>for (const nodeId of nodes.keys()) visit(nodeId)\<close>\<close>

fun visit_all :: "string list \<Rightarrow> visit_state \<Rightarrow> error + visit_state" where
  "visit_all [] st = Inr st"
| "visit_all (nodeId # ks) st =
     (case visit nodeId st of Inl e \<Rightarrow> Inl e | Inr (l, st') \<Rightarrow> visit_all ks st')"

definition initial_visit_state :: "(string \<times> DAGNode) list \<Rightarrow> visit_state" where
  "initial_visit_state ns =
     \<lparr>st_nodes = ns, st_levels = [], visited = {}, inProgress_dfs = {}\<rparr>"

definition buildDAG :: "Task list \<Rightarrow> error + DAG" where
  "buildDAG tasks =
     (let ns = linkDependents (createNodes tasks) in
      case visit_all (map fst ns) (initial_visit_state ns) of
        Inl e \<Rightarrow> Inl e
      | Inr st \<Rightarrow> Inr \<lparr>nodes = st_nodes st, levels = st_levels st, criticalPath = []\<rparr>)"

text \<open>The keys of the node map, and the measure that decreases along the calls of
  \<^verbatim>\<open>visit\<close>: the number of keys that are not on the stack of the traversal.\<close>

definition node_keys :: "visit_state \<Rightarrow> string set" where
  "node_keys st = fst ` set (st_nodes st)"

definition visit_measure ::
  "string \<times> visit_state + string list \<times> int \<times> visit_state \<Rightarrow> nat \<times> nat" where
  "visit_measure c =
     (case c of
        Inl (n, st) \<Rightarrow> (card (node_keys st - inProgress_dfs st), 0)
      | Inr (ds, m, st) \<Rightarrow> (card (node_keys st - inProgress_dfs st), Suc (length ds)))"

section \<open>Critical path\<close>

text \<open>\<^verbatim>\<open>m.get(k) ?? 0\<close>\<close>

definition get_or_0 :: "(string \<rightharpoonup> real) \<Rightarrow> string \<Rightarrow> real" where
  "get_or_0 m k = (case m k of None \<Rightarrow> 0 | Some v \<Rightarrow> v)"

definition durations :: "(string \<times> DAGNode) list \<Rightarrow> (string \<rightharpoonup> real)" where
  "durations ns =
     foldl (\<lambda>m (nodeId, node). m(nodeId \<mapsto> estimatedHours (task node))) Map.empty ns"

definition maxPredEnd ::
  "(string \<rightharpoonup> real) \<Rightarrow> (string \<rightharpoonup> real) \<Rightarrow> string list \<Rightarrow> real" where
  "maxPredEnd duration earliestStart deps =
     foldl (\<lambda>acc depId. max acc (get_or_0 earliestStart depId + get_or_0 duration depId)) 0 deps"

text \<open>The forward pass runs over the entries of \<^verbatim>\<open>nodes\<close> in the order of the map, which
  is the order of the tasks.\<close>

definition forwardPass ::
  "(string \<times> DAGNode) list \<Rightarrow> (string \<rightharpoonup> real) \<Rightarrow> (string \<rightharpoonup> real)" where
  "forwardPass ns duration =
     foldl (\<lambda>es (nodeId, node). es(nodeId \<mapsto> maxPredEnd duration es (node_dependencies node)))
       Map.empty ns"

text \<open>\<^verbatim>\<open>let endpoint = null; let maxFinish = 0; ... if (finish > maxFinish) ...\<close>\<close>

definition findEndpoint ::
  "(string \<times> DAGNode) list \<Rightarrow> (string \<rightharpoonup> real) \<Rightarrow> (string \<rightharpoonup> real) \<Rightarrow> string option" where
  "findEndpoint ns duration earliestStart =
     fst (foldl (\<lambda>(endpoint, maxFinish) (nodeId, node).
                  let finish = get_or_0 earliestStart nodeId + get_or_0 duration nodeId in
                  if finish > maxFinish then (Some nodeId, finish) else (endpoint, maxFinish))
            (None, 0) ns)"

text \<open>\<^verbatim>\<open>let criticalPred = null; let maxPredFinish = -1; ...\<close>\<close>

definition findCriticalPred ::
  "(string \<rightharpoonup> real) \<Rightarrow> (string \<rightharpoonup> real) \<Rightarrow> string list \<Rightarrow> string option" where
  "findCriticalPred duration earliestStart deps =
     fst (foldl (\<lambda>(criticalPred, maxPredFinish) depId.
                  let predFinish = get_or_0 earliestStart depId + get_or_0 duration depId in
                  if predFinish > maxPredFinish then (Some depId, predFinish)
                  else (criticalPred, maxPredFinish))
            (None, - 1) deps)"

text \<open>Truthiness of a \<^verbatim>\<open>string | null\<close>: \<^verbatim>\<open>null\<close> and the empty string are falsy.\<close>

definition truthy :: "string option \<Rightarrow> bool" where
  "truthy s = (case s of None \<Rightarrow> False | Some v \<Rightarrow> v \<noteq> [])"

text \<open>
  \<^verbatim>\<open>while (current) { criticalPath.unshift(current); ... current = criticalPred }\<close>.
  The loop follows dependencies and does not end on a cyclic map, so its result is
  optional: \<open>None\<close> is a loop that never returns.
\<close>

partial_function (option) backtrack ::
  "(string \<times> DAGNode) list \<Rightarrow> (string \<rightharpoonup> real) \<Rightarrow> (string \<rightharpoonup> real) \<Rightarrow>
     string option \<Rightarrow> string list \<Rightarrow> (error + string list) option" where
  "backtrack ns duration earliestStart current path =
     (case current of
        None \<Rightarrow> Some (Inr path)
      | Some c \<Rightarrow>
          if c = [] then Some (Inr path)
          else (case map_of ns c of
                  None \<Rightarrow> Some (Inl TypeError)
                | Some node \<Rightarrow>
                    backtrack ns duration earliestStart
                      (findCriticalPred duration earliestStart (node_dependencies node))
                      (c # path)))"

declare backtrack.simps [code]

text \<open>\<^verbatim>\<open>identifyCriticalPath\<close> returns the path and stores it in \<^verbatim>\<open>dag.criticalPath\<close>; the
  early \<^verbatim>\<open>return []\<close> leaves the DAG as it is.\<close>

definition identifyCriticalPath :: "DAG \<Rightarrow> (error + string list \<times> DAG) option" where
  "identifyCriticalPath dag =
     (let duration = durations (nodes dag);
          earliestStart = forwardPass (nodes dag) duration;
          endpoint = findEndpoint (nodes dag) duration earliestStart
      in if \<not> truthy endpoint then Some (Inr ([], dag))
         else (case backtrack (nodes dag) duration earliestStart endpoint [] of
                 None \<Rightarrow> None
               | Some (Inl e) \<Rightarrow> Some (Inl e)
               | Some (Inr path) \<Rightarrow> Some (Inr (path, dag\<lparr>criticalPath := path\<rparr>))))"

subsection \<open>Example inputs\<close>

definition mkTask :: "string \<Rightarrow> string list \<Rightarrow> real \<Rightarrow> Task" where
  "mkTask i deps h =
     \<lparr>task_id = i, priority = ''P2-Medium'', assignedAgent = None, dependencies = deps,
      estimatedHours = h, labels = []\<rparr>"

definition mkNode :: "Task \<Rightarrow> string list \<Rightarrow> int \<Rightarrow> DAGNode" where
  "mkNode t ds l = \<lparr>task = t, node_dependencies = dependencies t, dependents = ds, level = l\<rparr>"

text \<open>Four tasks, D listed first although it depends on B and C, and B before A.\<close>

definition unordered_tasks :: "Task list" where
  "unordered_tasks =
     [mkTask ''D'' [''B'', ''C''] 1, mkTask ''B'' [''A''] 1, mkTask ''C'' [] 5,
      mkTask ''A'' [] 10]"

definition unordered_dag :: DAG where
  "unordered_dag =
     \<lparr>nodes =
        [(''D'', mkNode (mkTask ''D'' [''B'', ''C''] 1) [] 2),
         (''B'', mkNode (mkTask ''B'' [''A''] 1) [''D''] 1),
         (''C'', mkNode (mkTask ''C'' [] 5) [''D''] 0),
         (''A'', mkNode (mkTask ''A'' [] 10) [''B''] 0)],
      levels = [[''A'', ''C''], [''B''], [''D'']], criticalPath = []\<rparr>"

text \<open>One task without dependencies whose estimate is zero hours.\<close>

definition zero_task :: Task where
  "zero_task = mkTask ''A'' [] 0"

definition zero_dag :: DAG where
  "zero_dag = \<lparr>nodes = [(''A'', mkNode zero_task [] 0)], levels = [[''A'']], criticalPath = []\<rparr>"


section \<open>Levels of the graph builder: invariants\<close>

text \<open>The dependency list and the level stored in the node of a key; a key without a node has
  none and reads as level 0.\<close>

definition deps_of :: "(string \<times> DAGNode) list \<Rightarrow> string \<Rightarrow> string list" where
  "deps_of ns k = (case map_of ns k of None \<Rightarrow> [] | Some node \<Rightarrow> node_dependencies node)"

definition level_of :: "(string \<times> DAGNode) list \<Rightarrow> string \<Rightarrow> int" where
  "level_of ns k = (case map_of ns k of None \<Rightarrow> 0 | Some node \<Rightarrow> level node)"

text \<open>The rule of the level computation: one more than the greatest level of the dependencies,
  and 0 without dependencies (\<^verbatim>\<open>maxDepLevel\<close> starts at -1).\<close>

definition level_rule :: "(string \<times> DAGNode) list \<Rightarrow> string \<Rightarrow> int" where
  "level_rule ns k = Max (insert (- 1) (level_of ns ` set (deps_of ns k))) + 1"

text \<open>The array \<^verbatim>\<open>levels\<close> during the traversal: it holds the visited nodes, each once, at the
  index that is its level.\<close>

definition levels_ok :: "visit_state \<Rightarrow> bool" where
  "levels_ok st \<longleftrightarrow>
     distinct (concat (st_levels st)) \<and> set (concat (st_levels st)) = visited st \<and>
     (\<forall>i < length (st_levels st). \<forall>k \<in> set (st_levels st ! i).
        level_of (st_nodes st) k = int i)"

text \<open>The invariant of the traversal: the visited keys are keys of the map, their dependencies
  are visited, their levels follow the rule, none of them is on the stack.\<close>

definition dfs_inv :: "visit_state \<Rightarrow> bool" where
  "dfs_inv st \<longleftrightarrow>
     visited st \<subseteq> node_keys st \<and>
     (\<forall>v \<in> visited st. set (deps_of (st_nodes st) v) \<subseteq> visited st) \<and>
     (\<forall>v \<in> visited st. level_of (st_nodes st) v = level_rule (st_nodes st) v) \<and>
     visited st \<inter> inProgress_dfs st = {} \<and>
     levels_ok st"

text \<open>What a call of \<^verbatim>\<open>visit\<close> leaves as it was: the keys and the dependency lists, the stack,
  the nodes visited before and their levels.\<close>

definition dfs_frame :: "visit_state \<Rightarrow> visit_state \<Rightarrow> bool" where
  "dfs_frame st st' \<longleftrightarrow>
     map fst (st_nodes st') = map fst (st_nodes st) \<and>
     (\<forall>k. deps_of (st_nodes st') k = deps_of (st_nodes st) k) \<and>
     inProgress_dfs st' = inProgress_dfs st \<and>
     visited st \<subseteq> visited st' \<and>
     (\<forall>v \<in> visited st. level_of (st_nodes st') v = level_of (st_nodes st) v)"

text \<open>The array after \<^verbatim>\<open>if (!levels[i]) levels[i] = []\<close>.\<close>

definition pad_levels :: "string list list \<Rightarrow> nat \<Rightarrow> string list list" where
  "pad_levels lvls i = (if i < length lvls then lvls else lvls @ replicate (Suc i - length lvls) [])"

text \<open>What a call of \<^verbatim>\<open>visit\<close> that returns, and the loop over the dependencies, establish.\<close>

definition visit_post :: "string \<Rightarrow> visit_state \<Rightarrow> int \<Rightarrow> visit_state \<Rightarrow> bool" where
  "visit_post n st l st' \<longleftrightarrow>
     dfs_inv st' \<and> dfs_frame st st' \<and> n \<in> visited st' \<and> l = level_of (st_nodes st') n"

definition deps_post :: "string list \<Rightarrow> int \<Rightarrow> visit_state \<Rightarrow> int \<Rightarrow> visit_state \<Rightarrow> bool" where
  "deps_post ds m st l st' \<longleftrightarrow>
     dfs_inv st' \<and> dfs_frame st st' \<and> set ds \<subseteq> visited st' \<and>
     l = Max (insert m (level_of (st_nodes st') ` set ds))"

text \<open>The edges of the node map, from a node to each of its dependencies. The map is well
  formed when every dependency is a key and the edges have no cycle.\<close>

definition dep_rel :: "(string \<times> DAGNode) list \<Rightarrow> (string \<times> string) set" where
  "dep_rel ns = {(k, d). d \<in> set (deps_of ns k)}"

definition graph_ok :: "visit_state \<Rightarrow> bool" where
  "graph_ok st \<longleftrightarrow>
     (\<forall>k. set (deps_of (st_nodes st) k) \<subseteq> node_keys st) \<and> acyclic (dep_rel (st_nodes st))"

text \<open>The edges of a batch of tasks, from the id of a task to each id in its dependencies.\<close>

definition dependency_edges :: "Task list \<Rightarrow> (string \<times> string) set" where
  "dependency_edges tasks = {(task_id t, d) | t d. t \<in> set tasks \<and> d \<in> set (dependencies t)}"

text \<open>What the second loop of \<^verbatim>\<open>buildDAG\<close> leaves as it was: the keys, in their order, and the
  dependency lists.\<close>

definition link_frame :: "(string \<times> DAGNode) list \<Rightarrow> (string \<times> DAGNode) list \<Rightarrow> bool" where
  "link_frame ns ns' \<longleftrightarrow> map fst ns' = map fst ns \<and> (\<forall>k. deps_of ns' k = deps_of ns k)"


section \<open>Bounded concurrent executor\<close>

text \<open>
  \<^verbatim>\<open>AgentResult\<close>, without the fields that the coordinator never reads (\<^verbatim>\<open>output\<close>,
  \<^verbatim>\<open>metrics\<close>, \<^verbatim>\<open>logs\<close>).
\<close>

record AgentResult =
  success :: bool
  result_taskId :: string
  agentName :: string
  error_message :: "string option"

text \<open>An agent is opaque to the coordinator; only its presence in the map
  \<^verbatim>\<open>agents: Map<string, BaseAgent>\<close> is read.\<close>

datatype BaseAgent = BaseAgent string

text \<open>
  A \<^verbatim>\<open>Set<string>\<close> is a list without duplicates, in insertion order; \<^verbatim>\<open>size\<close> is its
  length.
\<close>

definition set_add :: "string \<Rightarrow> string list \<Rightarrow> string list" where
  "set_add x s = (if x \<in> set s then s else s @ [x])"

definition set_delete :: "string \<Rightarrow> string list \<Rightarrow> string list" where
  "set_delete x s = removeAll x s"

text \<open>
  How the promise of \<^verbatim>\<open>agent.execute(task)\<close> settles: it is fulfilled with a result, or
  rejected with an error, of which only the message is read.
\<close>

datatype settled = Resolved AgentResult | Rejected string

text \<open>
  What happens between two rounds of the loop: the promise of a running task settles, or
  the \<^verbatim>\<open>catch\<close> handler runs for a task whose \<^verbatim>\<open>executeTask\<close> was rejected for want of an
  agent.
\<close>

datatype exec_event = Settle Task settled | Caught Task

text \<open>
  The local variables of \<^verbatim>\<open>executeParallel\<close>, and three variables that are not in the
  source and that no step of the source reads: \<open>running\<close>, the tasks whose
  \<^verbatim>\<open>agent.execute\<close> promise is pending; \<open>rejected\<close>, the tasks whose \<^verbatim>\<open>executeTask\<close> promise
  was rejected for want of an agent and whose \<^verbatim>\<open>catch\<close> handler has not run yet; and
  \<open>history\<close>, the list of the calls of \<^verbatim>\<open>executeTask\<close> and of the pushes on \<^verbatim>\<open>results\<close> in
  the order in which they happened.
\<close>

datatype log_entry = Dispatched Task | Recorded Task AgentResult

record exec_state =
  results :: "AgentResult list"
  queue :: "Task list"
  inProgress :: "string list"
  completed :: "string list"
  running :: "Task list"
  rejected :: "Task list"
  history :: "log_entry list"

definition initial_state :: "Task list \<Rightarrow> exec_state" where
  "initial_state tasks =
     \<lparr>results = [], queue = tasks, inProgress = [], completed = [], running = [],
      rejected = [], history = []\<rparr>"

text \<open>\<^verbatim>\<open>task.assignedAgent ?? 'codegen'\<close>: only an absent role is replaced.\<close>

definition agentTypeOf :: "Task \<Rightarrow> string" where
  "agentTypeOf t = (case assignedAgent t of None \<Rightarrow> ''codegen'' | Some a \<Rightarrow> a)"

text \<open>The result that the \<^verbatim>\<open>catch\<close> handler of the dispatch loop builds from an error.\<close>

definition failure_result :: "Task \<Rightarrow> string \<Rightarrow> AgentResult" where
  "failure_result t msg =
     \<lparr>success = False, result_taskId = task_id t,
      agentName = (case assignedAgent t of None \<Rightarrow> ''unknown'' | Some a \<Rightarrow> a),
      error_message = Some msg\<rparr>"

definition push_result :: "Task \<Rightarrow> AgentResult \<Rightarrow> exec_state \<Rightarrow> exec_state" where
  "push_result t r st =
     st\<lparr>results := results st @ [r], history := history st @ [Recorded t r]\<rparr>"

text \<open>
  The call \<^verbatim>\<open>executeTask(task)\<close> up to its first \<^verbatim>\<open>await\<close>. Without an agent for the
  role the \<^verbatim>\<open>async\<close> function throws before it touches \<^verbatim>\<open>inProgress\<close>: the call
  returns a rejected promise and changes no variable of the loop; the \<^verbatim>\<open>catch\<close> handler
  that pushes a failed result only runs in the microtasks that follow the round. With an
  agent, the task enters \<^verbatim>\<open>inProgress\<close> and waits for \<^verbatim>\<open>agent.execute\<close>.
\<close>

definition executeTask :: "(string \<rightharpoonup> BaseAgent) \<Rightarrow> Task \<Rightarrow> exec_state \<Rightarrow> exec_state" where
  "executeTask agents t st =
     (case agents (agentTypeOf t) of
        None \<Rightarrow> st\<lparr>rejected := rejected st @ [t]\<rparr>
      | Some agent \<Rightarrow>
          st\<lparr>inProgress := set_add (task_id t) (inProgress st), running := running st @ [t]\<rparr>)"

text \<open>
  One turn of \<^verbatim>\<open>for (const task of tasksToExecute)\<close>: the task leaves the queue
  (\<^verbatim>\<open>indexOf\<close> and \<^verbatim>\<open>splice\<close> remove its first occurrence) and \<^verbatim>\<open>executeTask\<close> is called.
\<close>

definition dispatch :: "(string \<rightharpoonup> BaseAgent) \<Rightarrow> exec_state \<Rightarrow> Task \<Rightarrow> exec_state" where
  "dispatch agents st t =
     executeTask agents t
       (st\<lparr>queue := remove1 t (queue st), history := history st @ [Dispatched t]\<rparr>)"

text \<open>
  For a running task: the continuation of \<^verbatim>\<open>executeTask\<close> after
  \<^verbatim>\<open>await agent.execute(task)\<close>, together with the \<^verbatim>\<open>then\<close> or \<^verbatim>\<open>catch\<close> handler of the
  dispatch loop. Both run as microtasks of one task of the event loop, and the control loop
  only runs after its own timer, so no round of the loop comes between them. For a task
  without an agent: the \<^verbatim>\<open>catch\<close> handler, with the message of the error that
  \<^verbatim>\<open>executeTask\<close> threw. An event for a task that is not waiting for it changes nothing.
\<close>

definition settle :: "exec_state \<Rightarrow> exec_event \<Rightarrow> exec_state" where
  "settle st ev =
     (case ev of
        Settle t outcome \<Rightarrow>
          if t \<notin> set (running st) then st
          else (case outcome of
                  Resolved r \<Rightarrow>
                    push_result t r
                      (st\<lparr>completed := set_add (task_id t) (completed st),
                          inProgress := set_delete (task_id t) (inProgress st),
                          running := remove1 t (running st)\<rparr>)
                | Rejected msg \<Rightarrow>
                    push_result t (failure_result t msg)
                      (st\<lparr>inProgress := set_delete (task_id t) (inProgress st),
                          running := remove1 t (running st)\<rparr>))
      | Caught t \<Rightarrow>
          if t \<notin> set (rejected st) then st
          else push_result t (failure_result t (''Agent not found: '' @ agentTypeOf t))
                 (st\<lparr>rejected := remove1 t (rejected st)\<rparr>))"

text \<open>
  The wait of the loop for its timer of 100 ms. It begins with the microtasks that the
  round left behind. The first list of events of a wait are the executors that settle
  there ahead of the \<^verbatim>\<open>catch\<close> handlers: an executor that resolves without waiting for the
  event loop, dispatched in the round before the task without an agent, pushes its result
  first. Then the \<^verbatim>\<open>catch\<close> handlers of the rejected calls run, in the order of the calls;
  when the microtasks are done, every one of them has run. The second list are the promises
  that settle after that and before the timer fires. The schedule is free in what it puts
  in the first list, so the model has every order of the code, and more.
\<close>

definition catch_all :: "exec_state \<Rightarrow> exec_state" where
  "catch_all st = foldl settle st (map Caught (rejected st))"

definition after_wait :: "exec_state \<Rightarrow> exec_event list \<times> exec_event list \<Rightarrow> exec_state" where
  "after_wait st w = foldl settle (catch_all (foldl settle st (fst w))) (snd w)"

text \<open>\<^verbatim>\<open>queue.filter((task) => task.dependencies.every((depId) => completed.has(depId)))\<close>\<close>

definition readyTasks :: "exec_state \<Rightarrow> Task list" where
  "readyTasks st =
     filter (\<lambda>t. list_all (\<lambda>depId. depId \<in> set (completed st)) (dependencies t)) (queue st)"

text \<open>\<^verbatim>\<open>xs.slice(0, e)\<close>: a negative end counts from the end of the array.\<close>

definition slice0 :: "'a list \<Rightarrow> int \<Rightarrow> 'a list" where
  "slice0 xs e = (if e < 0 then take (nat (int (length xs) + e)) xs else take (nat e) xs)"

definition tasksToExecute :: "int \<Rightarrow> exec_state \<Rightarrow> Task list" where
  "tasksToExecute maxConcurrency st =
     slice0 (readyTasks st) (maxConcurrency - int (length (inProgress st)))"

definition deadlock_error :: error where
  "deadlock_error = Error ''Circular dependency or blocked tasks detected''"

text \<open>The body of the \<^verbatim>\<open>while\<close> loop up to its \<^verbatim>\<open>await\<close> of the timer.\<close>

datatype round = Throw error | Break | Continue exec_state

definition loop_body :: "int \<Rightarrow> (string \<rightharpoonup> BaseAgent) \<Rightarrow> exec_state \<Rightarrow> round" where
  "loop_body maxConcurrency agents st =
     (let ts = tasksToExecute maxConcurrency st in
      if length ts = 0 \<and> length (inProgress st) = 0 then
        (if length (queue st) > 0 then Throw deadlock_error else Break)
      else Continue (foldl (dispatch agents) st ts))"

text \<open>
  A run of the loop. What the executors do is not in the source: the schedule gives, for
  each wait of the loop, the events of the wait, in their order, as a function of the
  state at the start of the wait. The run is \<open>None\<close> when the schedule ends before the
  loop does; the loop polls for ever when a promise never settles.
\<close>

datatype run_result = Returned exec_state | Threw error exec_state

fun run ::
  "int \<Rightarrow> (string \<rightharpoonup> BaseAgent) \<Rightarrow>
     (exec_state \<Rightarrow> exec_event list \<times> exec_event list) list \<Rightarrow> exec_state \<Rightarrow>
     run_result option" where
  "run maxConcurrency agents sched st =
     (if \<not> (length (queue st) > 0 \<or> length (inProgress st) > 0) then Some (Returned st)
      else (case loop_body maxConcurrency agents st of
              Throw e \<Rightarrow> Some (Threw e st)
            | Break \<Rightarrow> Some (Returned st)
            | Continue st' \<Rightarrow>
                (case sched of
                   [] \<Rightarrow> None
                 | wait # rest \<Rightarrow> run maxConcurrency agents rest (after_wait st' (wait st')))))"

text \<open>What the caller of \<^verbatim>\<open>executeParallel\<close> gets: the promise is fulfilled with
  \<^verbatim>\<open>results\<close>, or rejected with the error that was thrown, and the local variables are
  gone.\<close>

definition promise_of :: "run_result \<Rightarrow> error + AgentResult list" where
  "promise_of r = (case r of Returned st \<Rightarrow> Inr (results st) | Threw e st \<Rightarrow> Inl e)"

definition executeParallel ::
  "(exec_state \<Rightarrow> exec_event list \<times> exec_event list) list \<Rightarrow> Task list \<Rightarrow>
     (string \<rightharpoonup> BaseAgent) \<Rightarrow> int \<Rightarrow> (error + AgentResult list) option" where
  "executeParallel sched tasks agents maxConcurrency =
     map_option promise_of (run maxConcurrency agents sched (initial_state tasks))"

text \<open>The states of the control loop: the initial one, those after a round of the loop,
  and those after a promise settles or a \<^verbatim>\<open>catch\<close> handler runs.\<close>

inductive reachable :: "int \<Rightarrow> (string \<rightharpoonup> BaseAgent) \<Rightarrow> Task list \<Rightarrow> exec_state \<Rightarrow> bool"
  for maxConcurrency :: int and agents :: "string \<rightharpoonup> BaseAgent" and tasks :: "Task list" where
  reach_init: "reachable maxConcurrency agents tasks (initial_state tasks)"
| reach_round:
    "reachable maxConcurrency agents tasks st \<Longrightarrow>
     length (queue st) > 0 \<or> length (inProgress st) > 0 \<Longrightarrow>
     loop_body maxConcurrency agents st = Continue st' \<Longrightarrow>
     reachable maxConcurrency agents tasks st'"
| reach_settle:
    "reachable maxConcurrency agents tasks st \<Longrightarrow>
     reachable maxConcurrency agents tasks (settle st ev)"

text \<open>The wait in which every pending promise settles before the timer fires, with the
  outcome that \<open>f\<close> gives to its task.\<close>

definition settle_all ::
  "(Task \<Rightarrow> settled) \<Rightarrow> exec_state \<Rightarrow> exec_event list \<times> exec_event list" where
  "settle_all f st = ([], map (\<lambda>t. Settle t (f t)) (running st))"

section \<open>Invariants of the executor\<close>

text \<open>
  When the ids of the batch are distinct, the ids of the tasks that wait or run are
  distinct, \<^verbatim>\<open>inProgress\<close> holds exactly the ids of the running tasks, and no completed id
  waits or runs.
\<close>

definition unique_inv :: "exec_state \<Rightarrow> bool" where
  "unique_inv st \<longleftrightarrow>
     distinct (map task_id (queue st @ running st)) \<and>
     inProgress st = map task_id (running st) \<and>
     set (completed st) \<inter> task_id ` set (queue st @ running st) = {}"

text \<open>
  The ids for which a result was pushed, and the order of the history: whenever
  \<^verbatim>\<open>executeTask\<close> was called for a task, a result had been pushed before for each of its
  dependencies.
\<close>

definition recorded_ids :: "log_entry list \<Rightarrow> string set" where
  "recorded_ids h = {i. \<exists>t r. Recorded t r \<in> set h \<and> task_id t = i}"

definition history_ordered :: "log_entry list \<Rightarrow> bool" where
  "history_ordered h \<longleftrightarrow>
     (\<forall>pre t post. h = pre @ Dispatched t # post \<longrightarrow> set (dependencies t) \<subseteq> recorded_ids pre)"

definition history_inv :: "exec_state \<Rightarrow> bool" where
  "history_inv st \<longleftrightarrow>
     set (completed st) \<subseteq> recorded_ids (history st) \<and> history_ordered (history st)"

text \<open>
  A task whose id is neither completed nor the id of a task that waits or runs can never
  complete; a task of the queue that depends on it is stuck.
\<close>

definition blocked_by :: "Task \<Rightarrow> exec_state \<Rightarrow> bool" where
  "blocked_by t st \<longleftrightarrow>
     task_id t \<notin> set (completed st) \<and> task_id t \<notin> task_id ` set (queue st @ running st)"

definition stuck :: "Task \<Rightarrow> Task \<Rightarrow> exec_state \<Rightarrow> bool" where
  "stuck t b st \<longleftrightarrow>
     blocked_by t st \<and> b \<in> set (queue st) \<and> task_id t \<in> set (dependencies b)"

text \<open>The state in which a run ended.\<close>

definition final_state :: "run_result \<Rightarrow> exec_state" where
  "final_state r = (case r of Returned st \<Rightarrow> st | Threw e st \<Rightarrow> st)"

subsection \<open>Example runs of the executor\<close>

definition codegen_only :: "string \<rightharpoonup> BaseAgent" where
  "codegen_only = [''codegen'' \<mapsto> BaseAgent ''CodeGenAgent'']"

definition agent_result :: "bool \<Rightarrow> string \<Rightarrow> AgentResult" where
  "agent_result ok i =
     \<lparr>success = ok, result_taskId = i, agentName = ''CodeGenAgent'', error_message = None\<rparr>"

definition three_tasks :: "Task list" where
  "three_tasks = [mkTask ''T1'' [] 1, mkTask ''T2'' [] 1, mkTask ''T3'' [] 1]"

definition three_round1 :: exec_state where
  "three_round1 =
     \<lparr>results = [], queue = [mkTask ''T3'' [] 1], inProgress = [''T1'', ''T2''],
      completed = [], running = [mkTask ''T1'' [] 1, mkTask ''T2'' [] 1], rejected = [],
      history = [Dispatched (mkTask ''T1'' [] 1), Dispatched (mkTask ''T2'' [] 1)]\<rparr>"

definition chain_tasks :: "Task list" where
  "chain_tasks = [mkTask ''A'' [] 1, mkTask ''B'' [''A''] 1]"

definition chain_round1 :: exec_state where
  "chain_round1 =
     \<lparr>results = [], queue = [mkTask ''B'' [''A''] 1], inProgress = [''A''],
      completed = [], running = [mkTask ''A'' [] 1], rejected = [],
      history = [Dispatched (mkTask ''A'' [] 1)]\<rparr>"

definition chain_settled :: exec_state where
  "chain_settled =
     \<lparr>results = [agent_result False ''A''], queue = [mkTask ''B'' [''A''] 1], inProgress = [],
      completed = [''A''], running = [], rejected = [],
      history = [Dispatched (mkTask ''A'' [] 1),
                 Recorded (mkTask ''A'' [] 1) (agent_result False ''A'')]\<rparr>"

definition chain_round2 :: exec_state where
  "chain_round2 =
     \<lparr>results = [agent_result False ''A''], queue = [], inProgress = [''B''],
      completed = [''A''], running = [mkTask ''B'' [''A''] 1], rejected = [],
      history = [Dispatched (mkTask ''A'' [] 1),
                 Recorded (mkTask ''A'' [] 1) (agent_result False ''A''),
                 Dispatched (mkTask ''B'' [''A''] 1)]\<rparr>"

definition task_A :: Task where "task_A = mkTask ''A'' [] 1"

definition blocked_tasks :: "Task list" where
  "blocked_tasks = [task_A, mkTask ''B'' [''X''] 1]"

definition resolve_A ::
  "bool \<Rightarrow> (exec_state \<Rightarrow> exec_event list \<times> exec_event list) list" where
  "resolve_A ok = [\<lambda>st. ([], [Settle task_A (Resolved (agent_result ok ''A''))])]"

definition blocked_final :: exec_state where
  "blocked_final =
     \<lparr>results = [agent_result True ''A''], queue = [mkTask ''B'' [''X''] 1], inProgress = [],
      completed = [''A''], running = [], rejected = [],
      history = [Dispatched task_A, Recorded task_A (agent_result True ''A'')]\<rparr>"

definition ghost_A :: Task where
  "ghost_A = (mkTask ''A'' [] 1)\<lparr>assignedAgent := Some ''ghost''\<rparr>"

definition ghost_tasks :: "Task list" where
  "ghost_tasks = [ghost_A, mkTask ''B'' [] 1]"

text \<open>A task with an agent, a task without one, and a task that depends on the latter.\<close>

definition ghost_chain :: "Task list" where
  "ghost_chain = [mkTask ''P'' [] 1, ghost_A, mkTask ''B'' [''A''] 1]"

definition resolve_all :: "(exec_state \<Rightarrow> exec_event list \<times> exec_event list) list" where
  "resolve_all = replicate 2 (settle_all (\<lambda>t. Resolved (agent_result True (task_id t))))"

text \<open>Executors that resolve at once, in the microtasks of the round that called them.\<close>

definition settle_now ::
  "(Task \<Rightarrow> settled) \<Rightarrow> exec_state \<Rightarrow> exec_event list \<times> exec_event list" where
  "settle_now f st = (map (\<lambda>t. Settle t (f t)) (running st), [])"

definition resolve_now :: "(exec_state \<Rightarrow> exec_event list \<times> exec_event list) list" where
  "resolve_now = replicate 2 (settle_now (\<lambda>t. Resolved (agent_result True (task_id t))))"

definition ghost_last :: "Task list" where
  "ghost_last = [mkTask ''B'' [] 1, ghost_A]"

definition reject_A :: exec_event where
  "reject_A = Settle task_A (Rejected ''boom'')"

section \<open>Properties of the agent assignment\<close>

lemma includes_str_iff: "includes_str l s \<longleftrightarrow> (\<exists>p q. l = p @ s @ q)"
proof (induction l)
  case Nil
  then show ?case by auto
next
  case (Cons c cs)
  have "(\<exists>p q. c # cs = p @ s @ q) \<longleftrightarrow>
        take (length s) (c # cs) = s \<or> (\<exists>p q. cs = p @ s @ q)" (is "?L \<longleftrightarrow> ?A \<or> ?B")
  proof
    assume ?L
    then obtain p q where pq: "c # cs = p @ s @ q" by blast
    show "?A \<or> ?B"
    proof (cases p)
      case Nil
      with pq have "take (length s) (c # cs) = s" by simp
      then show ?thesis ..
    next
      case (Cons a p')
      with pq have "cs = p' @ s @ q" by simp
      then show ?thesis by blast
    qed
  next
    assume "?A \<or> ?B"
    then show ?L
    proof
      assume ?A
      then have "c # cs = [] @ s @ drop (length s) (c # cs)"
        by (metis append_Nil append_take_drop_id)
      then show ?L by blast
    next
      assume ?B
      then obtain p q where "cs = p @ s @ q" by blast
      then have "c # cs = (c # p) @ s @ q" by simp
      then show ?L by blast
    qed
  qed
  with Cons show ?case by simp
qed

lemma lower_substring:
  "(\<exists>p q. toLowerCase l = p @ w @ q) \<longleftrightarrow> (\<exists>p u q. l = p @ u @ q \<and> toLowerCase u = w)"
proof
  assume "\<exists>p q. toLowerCase l = p @ w @ q"
  then obtain p q where "map toLowerChar l = p @ (w @ q)"
    by (auto simp: toLowerCase_def)
  then have "\<exists>us vs. l = us @ vs \<and> p = map toLowerChar us \<and> w @ q = map toLowerChar vs"
    by (simp add: map_eq_append_conv)
  then obtain p' r where l: "l = p' @ r" and r: "map toLowerChar r = w @ q"
    by auto
  from r have "\<exists>us vs. r = us @ vs \<and> w = map toLowerChar us \<and> q = map toLowerChar vs"
    by (simp add: map_eq_append_conv)
  then obtain u q' where "r = u @ q'" and "map toLowerChar u = w"
    by auto
  with l show "\<exists>p u q. l = p @ u @ q \<and> toLowerCase u = w"
    by (auto simp: toLowerCase_def)
next
  assume "\<exists>p u q. l = p @ u @ q \<and> toLowerCase u = w"
  then obtain p u q where "l = p @ u @ q" and "toLowerCase u = w" by blast
  then have "toLowerCase l = toLowerCase p @ w @ toLowerCase q"
    by (auto simp: toLowerCase_def)
  then show "\<exists>p q. toLowerCase l = p @ w @ q" by blast
qed

lemma some_label_match:
  "some (\<lambda>l. includes_str l w) (map toLowerCase (labels t)) \<longleftrightarrow> label_match t w"
  by (simp add: some_def label_match_def list_ex_iff includes_str_iff lower_substring)

lemma some_disj: "some (\<lambda>l. p l \<or> q l) xs \<longleftrightarrow> some p xs \<or> some q xs"
  by (auto simp: some_def list_ex_iff)

lemma determineAgentType_spec_role: "determineAgentType t = spec_role t"
  by (simp add: determineAgentType_def agentTypeByLabels_def spec_role_def explicit_role_def
      some_disj some_label_match split: option.splits)

lemma getPriorityValue_spec_weight: "getPriorityValue p = spec_weight p"
  by (simp add: getPriorityValue_def spec_weight_def P0_CRITICAL_def P1_HIGH_def
      P2_MEDIUM_def P3_LOW_def)

lemma mkAssignment_spec: "mkAssignment t = spec_assignment t"
  by (simp add: mkAssignment_def spec_assignment_def determineAgentType_spec_role
      getPriorityValue_spec_weight)

text \<open>
  Claim C9. \<^verbatim>\<open>assignAgents\<close> gives every task the role of the rule (the explicit role
  verbatim when one is present, that is when it is a non-empty string; otherwise the first
  case-insensitive label match in the order test, deploy, review, pr or pull, issue;
  otherwise codegen) and the weight Critical=4, High=3, Medium=2, Low=1, anything else 0;
  the result holds exactly these assignments, in descending order of weight, and
  assignments of equal weight keep the order of their tasks.
\<close>

theorem assignAgents_rule_and_stable_order:
  "mset (assignAgents tasks) = mset (map spec_assignment tasks)
   \<and> sorted_wrt (\<lambda>a b. assignment_priority b \<le> assignment_priority a) (assignAgents tasks)
   \<and> (\<forall>w. filter (\<lambda>a. assignment_priority a = w) (assignAgents tasks) =
           filter (\<lambda>a. assignment_priority a = w) (map spec_assignment tasks))"
proof -
  let ?f = "\<lambda>a. - assignment_priority a"
  let ?as = "map mkAssignment tasks"
  have eq: "?as = map spec_assignment tasks"
    by (simp add: mkAssignment_spec)
  have m: "mset (assignAgents tasks) = mset ?as"
    by (simp add: assignAgents_def)
  have "sorted (map ?f (sort_key ?f ?as))"
    by (rule sorted_sort_key)
  then have s: "sorted_wrt (\<lambda>a b. assignment_priority b \<le> assignment_priority a)
                  (assignAgents tasks)"
    by (simp add: sorted_map assignAgents_def)
  have st: "filter (\<lambda>a. assignment_priority a = w) (assignAgents tasks) =
            filter (\<lambda>a. assignment_priority a = w) ?as" for w
  proof -
    have "filter (\<lambda>a. ?f a = - w) (sort_key ?f ?as) = filter (\<lambda>a. ?f a = - w) ?as"
      by (rule sort_key_stable)
    then show ?thesis by (simp add: assignAgents_def)
  qed
  from m s st show ?thesis unfolding eq by blast
qed

theorem assignAgents_rule_and_stable_order_witness:
  "assignAgents c9_tasks =
     [\<lparr>taskId = ''T2'', agentType = ''codegen'', assignment_priority = 4\<rparr>,
      \<lparr>taskId = ''T3'', agentType = ''review'', assignment_priority = 2\<rparr>,
      \<lparr>taskId = ''T4'', agentType = ''pr'', assignment_priority = 2\<rparr>,
      \<lparr>taskId = ''T1'', agentType = ''test'', assignment_priority = 1\<rparr>]
   \<and> sorted_wrt (\<lambda>a b. assignment_priority b \<le> assignment_priority a) (assignAgents c9_tasks)
   \<and> filter (\<lambda>a. assignment_priority a = 2) (assignAgents c9_tasks) =
       filter (\<lambda>a. assignment_priority a = 2) (map spec_assignment c9_tasks)"
proof -
  have e: "assignAgents c9_tasks =
     [\<lparr>taskId = ''T2'', agentType = ''codegen'', assignment_priority = 4\<rparr>,
      \<lparr>taskId = ''T3'', agentType = ''review'', assignment_priority = 2\<rparr>,
      \<lparr>taskId = ''T4'', agentType = ''pr'', assignment_priority = 2\<rparr>,
      \<lparr>taskId = ''T1'', agentType = ''test'', assignment_priority = 1\<rparr>]"
    by code_simp
  from assignAgents_rule_and_stable_order [of c9_tasks] e show ?thesis by blast
qed

section \<open>Termination of the level computation\<close>

lemma finish_node_frame:
  "finish_node n m st = (l, st') \<Longrightarrow>
     node_keys st' = node_keys st \<and> inProgress_dfs st' = inProgress_dfs st - {n}"
proof -
  assume "finish_node n m st = (l, st')"
  then have st': "st' = st\<lparr>st_nodes := AList.map_entry n (\<lambda>node. node\<lparr>level := m + 1\<rparr>) (st_nodes st),
              visited := insert n (visited st),
              inProgress_dfs := inProgress_dfs st - {n},
              st_levels := push_level (st_levels st) (m + 1) n\<rparr>"
    by (auto simp: finish_node_def Let_def)
  show ?thesis
    unfolding st' node_keys_def by (simp add: dom_map_entry)
qed

lemma visit_dom_frame:
  "visit_visit_deps_dom (Inl (n, st)) \<Longrightarrow>
     (\<forall>l st'. visit n st = Inr (l, st') \<longrightarrow>
        node_keys st' = node_keys st \<and> inProgress_dfs st' = inProgress_dfs st)"
  "visit_visit_deps_dom (Inr (ds, m, st)) \<Longrightarrow>
     (\<forall>l st'. visit_deps ds m st = Inr (l, st') \<longrightarrow>
        node_keys st' = node_keys st \<and> inProgress_dfs st' = inProgress_dfs st)"
proof (induction rule: visit_visit_deps.pinduct)
  case (1 nodeId st)
  show ?case
  proof (intro allI impI)
    fix l st'
    assume r: "visit nodeId st = Inr (l, st')"
    show "node_keys st' = node_keys st \<and> inProgress_dfs st' = inProgress_dfs st"
    proof (cases "nodeId \<in> visited st")
      case True
      with r "1.hyps" show ?thesis
        by (auto simp: visit.psimps split: option.splits)
    next
      case False
      with r "1.hyps" have nip: "nodeId \<notin> inProgress_dfs st"
        by (auto simp: visit.psimps split: if_splits)
      with False r "1.hyps" obtain node m st1 where
        node: "map_of (st_nodes st) nodeId = Some node" and
        deps: "visit_deps (node_dependencies node) (- 1)
                 (st\<lparr>inProgress_dfs := insert nodeId (inProgress_dfs st)\<rparr>) = Inr (m, st1)" and
        fin: "finish_node nodeId m st1 = (l, st')"
        by (auto simp: visit.psimps split: option.splits sum.splits)
      from "1.IH" [OF False nip node] deps have
        "node_keys st1 = node_keys st"
        "inProgress_dfs st1 = insert nodeId (inProgress_dfs st)"
        by (auto simp: node_keys_def)
      with finish_node_frame [OF fin] nip show ?thesis by auto
    qed
  qed
next
  case (2 maxDepLevel st)
  then show ?case by (simp add: visit_deps.psimps)
next
  case (3 depId ds maxDepLevel st)
  show ?case
  proof (intro allI impI)
    fix l st'
    assume r: "visit_deps (depId # ds) maxDepLevel st = Inr (l, st')"
    with "3.hyps" obtain l1 st1 where
      v: "visit depId st = Inr (l1, st1)" and
      d: "visit_deps ds (max maxDepLevel l1) st1 = Inr (l, st')"
      by (auto simp: visit_deps.psimps split: sum.splits)
    from "3.IH"(1) v have "node_keys st1 = node_keys st \<and> inProgress_dfs st1 = inProgress_dfs st"
      by blast
    moreover from "3.IH"(2) [OF v refl] d
    have "node_keys st' = node_keys st1 \<and> inProgress_dfs st' = inProgress_dfs st1"
      by blast
    ultimately show "node_keys st' = node_keys st \<and> inProgress_dfs st' = inProgress_dfs st"
      by simp
  qed
qed

termination visit
proof (relation "inv_image (less_than <*lex*> less_than) visit_measure")
  show "wf (inv_image (less_than <*lex*> less_than) visit_measure)"
    by (intro wf_inv_image wf_lex_prod wf_less_than)
next
  fix nodeId :: string and st :: visit_state and x2 :: DAGNode
  assume "nodeId \<notin> inProgress_dfs st" and "map_of (st_nodes st) nodeId = Some x2"
  then have "nodeId \<in> node_keys st - inProgress_dfs st"
    by (auto simp: node_keys_def dest: map_of_SomeD intro: rev_image_eqI)
  moreover have "finite (node_keys st - inProgress_dfs st)"
    by (simp add: node_keys_def)
  moreover have "node_keys st - insert nodeId (inProgress_dfs st) =
                 (node_keys st - inProgress_dfs st) - {nodeId}"
    by auto
  ultimately have "card (node_keys st - insert nodeId (inProgress_dfs st)) <
                   card (node_keys st - inProgress_dfs st)"
    by (metis card_Diff1_less)
  then show "(Inr (node_dependencies x2, - 1,
                st\<lparr>inProgress_dfs := insert nodeId (inProgress_dfs st)\<rparr>), Inl (nodeId, st))
             \<in> inv_image (less_than <*lex*> less_than) visit_measure"
    by (simp add: visit_measure_def node_keys_def)
next
  fix depId :: string and ds :: "string list" and maxDepLevel :: int and st :: visit_state
  show "(Inl (depId, st), Inr (depId # ds, maxDepLevel, st))
        \<in> inv_image (less_than <*lex*> less_than) visit_measure"
    by (simp add: visit_measure_def)
next
  fix depId :: string and ds :: "string list" and maxDepLevel :: int and st :: visit_state
    and b :: "int \<times> visit_state" and x :: int and y :: visit_state
  assume "visit depId st = Inr b" and "(x, y) = b"
    and "visit_visit_deps_dom (Inl (depId, st))"
  with visit_dom_frame(1) [of depId st]
  have "node_keys y = node_keys st \<and> inProgress_dfs y = inProgress_dfs st"
    by auto
  then show "(Inr (ds, max maxDepLevel x, y), Inr (depId # ds, maxDepLevel, st))
        \<in> inv_image (less_than <*lex*> less_than) visit_measure"
    by (simp add: visit_measure_def)
qed



section \<open>The critical path on concrete batches\<close>

text \<open>
  Claim C2, evaluated on \<open>unordered_tasks\<close>. \<^verbatim>\<open>buildDAG\<close> accepts the batch (it is acyclic
  and closed). The forward pass of \<^verbatim>\<open>identifyCriticalPath\<close> visits D first, when neither B
  nor C has an earliest start, so D starts at 5 although its dependency B finishes at
  10 + 1 = 11; the end point is then B, and the path returned is A, B, of 11 hours, where
  the chain A, B, D takes 12.
\<close>

theorem identifyCriticalPath_unordered_tasks:
  "buildDAG unordered_tasks = Inr unordered_dag
   \<and> identifyCriticalPath unordered_dag =
       Some (Inr ([''A'', ''B''], unordered_dag\<lparr>criticalPath := [''A'', ''B'']\<rparr>))
   \<and> forwardPass (nodes unordered_dag) (durations (nodes unordered_dag)) ''D'' = Some 5
   \<and> forwardPass (nodes unordered_dag) (durations (nodes unordered_dag)) ''B'' = Some 10
   \<and> durations (nodes unordered_dag) ''B'' = Some 1"
  by code_simp

text \<open>
  Claim C3, evaluated on a batch of one task of zero hours. The DAG has one node, no
  finish time exceeds the initial \<^verbatim>\<open>maxFinish = 0\<close>, no end point is chosen and the path
  returned is empty.
\<close>

theorem identifyCriticalPath_zero_durations:
  "buildDAG [zero_task] = Inr zero_dag
   \<and> nodes zero_dag \<noteq> []
   \<and> identifyCriticalPath zero_dag = Some (Inr ([], zero_dag))"
  by code_simp

section \<open>The level computation\<close>

subsection \<open>Pushing a node on its level\<close>

lemma map_fst_map_entry [simp]: "map fst (AList.map_entry k f xs) = map fst xs"
  by (induction xs) auto

lemma deps_of_map_entry_level [simp]:
  "deps_of (AList.map_entry n (\<lambda>node. node\<lparr>level := l\<rparr>) ns) k = deps_of ns k"
  by (auto simp: deps_of_def map_of_map_entry split: option.splits)

lemma level_of_map_entry_other:
  "k \<noteq> n \<Longrightarrow> level_of (AList.map_entry n f ns) k = level_of ns k"
  by (simp add: level_of_def map_of_map_entry)

lemma level_of_map_entry_same:
  "n \<in> fst ` set ns \<Longrightarrow> level_of (AList.map_entry n (\<lambda>node. node\<lparr>level := l\<rparr>) ns) n = l"
  by (auto simp: level_of_def map_of_map_entry split: option.splits
      dest: map_of_eq_None_iff [THEN iffD1])

lemma concat_pad: "concat (lv @ replicate m []) = concat lv"
  by (induction m) (simp_all add: replicate_append_same [symmetric] del: replicate_Suc)

lemma concat_update_snoc:
  assumes "i < length xs"
  shows "concat (xs[i := xs ! i @ [n]]) =
           concat (take i xs) @ (xs ! i @ [n]) @ concat (drop (Suc i) xs)"
  using assms by (simp add: upd_conv_take_nth_drop)

lemma concat_split_nth:
  assumes "i < length xs"
  shows "concat xs = concat (take i xs) @ xs ! i @ concat (drop (Suc i) xs)"
proof -
  from assms have "xs = take i xs @ xs ! i # drop (Suc i) xs" by (rule id_take_nth_drop)
  then have "concat xs = concat (take i xs @ xs ! i # drop (Suc i) xs)" by simp
  then show ?thesis by simp
qed

lemma push_level_pad:
  "push_level lvls l n = (pad_levels lvls (nat l))[nat l := pad_levels lvls (nat l) ! nat l @ [n]]"
  by (simp add: push_level_def pad_levels_def Let_def)

lemma length_pad_levels: "i < length (pad_levels lvls i)"
  by (simp add: pad_levels_def)

lemma concat_pad_levels: "concat (pad_levels lvls i) = concat lvls"
  by (simp add: pad_levels_def concat_pad)

lemma nth_pad_levels:
  "j < length (pad_levels lvls i) \<Longrightarrow>
     pad_levels lvls i ! j = (if j < length lvls then lvls ! j else [])"
  by (auto simp: pad_levels_def nth_append)

lemma set_concat_push_level:
  "set (concat (push_level lvls l n)) = insert n (set (concat lvls))"
proof -
  let ?p = "pad_levels lvls (nat l)"
  have i: "nat l < length ?p" by (rule length_pad_levels)
  have c: "set (concat ?p) =
             set (concat (take (nat l) ?p)) \<union> set (?p ! nat l) \<union>
             set (concat (drop (Suc (nat l)) ?p))"
    using arg_cong [OF concat_split_nth [OF i], of set] by (simp add: Un_assoc)
  have "set (concat (push_level lvls l n)) =
          insert n (set (concat (take (nat l) ?p)) \<union> set (?p ! nat l) \<union>
             set (concat (drop (Suc (nat l)) ?p)))"
    unfolding push_level_pad concat_update_snoc [OF i] by (simp add: Un_assoc)
  with c show ?thesis by (simp add: concat_pad_levels)
qed

lemma distinct_concat_push_level:
  assumes "distinct (concat lvls)" and "n \<notin> set (concat lvls)"
  shows "distinct (concat (push_level lvls l n))"
proof -
  let ?p = "pad_levels lvls (nat l)"
  let ?a = "concat (take (nat l) ?p)" and ?b = "?p ! nat l"
  let ?c = "concat (drop (Suc (nat l)) ?p)"
  have i: "nat l < length ?p" by (rule length_pad_levels)
  have c: "concat ?p = ?a @ ?b @ ?c" by (rule concat_split_nth [OF i])
  from assms have "distinct (?a @ ?b @ ?c)" and "n \<notin> set (?a @ ?b @ ?c)"
    unfolding c [symmetric] by (simp_all add: concat_pad_levels)
  then have "distinct (?a @ (?b @ [n]) @ ?c)" by auto
  then show ?thesis
    unfolding push_level_pad concat_update_snoc [OF i] .
qed

lemma nth_push_level:
  assumes "j < length (push_level lvls l n)" and "k \<in> set (push_level lvls l n ! j)"
  shows "(k = n \<and> j = nat l) \<or> (j < length lvls \<and> k \<in> set (lvls ! j))"
proof -
  let ?p = "pad_levels lvls (nat l)"
  from assms(1) have j: "j < length ?p" by (simp add: push_level_pad)
  show ?thesis
  proof (cases "j = nat l")
    case True
    with assms(2) j have "k \<in> set (?p ! j @ [n])" by (simp add: push_level_pad)
    with j show ?thesis using True by (auto simp: nth_pad_levels split: if_splits)
  next
    case False
    with assms(2) j have "k \<in> set (?p ! j)" by (simp add: push_level_pad)
    with j show ?thesis by (auto simp: nth_pad_levels split: if_splits)
  qed
qed

subsection \<open>The invariant along the traversal\<close>

lemma finish_node_eq:
  "finish_node n m st =
     (m + 1, st\<lparr>st_nodes := AList.map_entry n (\<lambda>node. node\<lparr>level := m + 1\<rparr>) (st_nodes st),
                visited := insert n (visited st),
                inProgress_dfs := inProgress_dfs st - {n},
                st_levels := push_level (st_levels st) (m + 1) n\<rparr>)"
  by (simp add: finish_node_def Let_def)

lemma level_image_cong:
  assumes "\<forall>d \<in> D. level_of ns' d = level_of ns d"
  shows "level_of ns' ` D = level_of ns ` D"
  using assms by (auto intro: image_cong)

lemma finish_node_post:
  assumes inv: "dfs_inv st1" and nk: "n \<in> node_keys st1" and nv: "n \<notin> visited st1"
    and deps: "set (deps_of (st_nodes st1) n) \<subseteq> visited st1"
    and m: "m = Max (insert (- 1) (level_of (st_nodes st1) ` set (deps_of (st_nodes st1) n)))"
    and fin: "finish_node n m st1 = (l, st')"
  shows "dfs_inv st'"
    and "map fst (st_nodes st') = map fst (st_nodes st1)"
    and "\<forall>k. deps_of (st_nodes st') k = deps_of (st_nodes st1) k"
    and "inProgress_dfs st' = inProgress_dfs st1 - {n}"
    and "visited st' = insert n (visited st1)"
    and "l = level_of (st_nodes st') n"
    and "\<forall>v \<in> visited st1. level_of (st_nodes st') v = level_of (st_nodes st1) v"
proof -
  let ?ns = "st_nodes st1"
  let ?ns' = "AList.map_entry n (\<lambda>node. node\<lparr>level := m + 1\<rparr>) ?ns"
  from fin have l: "l = m + 1"
    and st': "st' = st1\<lparr>st_nodes := ?ns', visited := insert n (visited st1),
                inProgress_dfs := inProgress_dfs st1 - {n},
                st_levels := push_level (st_levels st1) (m + 1) n\<rparr>"
    by (auto simp: finish_node_eq)
  have f: "st_nodes st' = ?ns'" "visited st' = insert n (visited st1)"
    "inProgress_dfs st' = inProgress_dfs st1 - {n}"
    "st_levels st' = push_level (st_levels st1) (m + 1) n"
    by (simp_all add: st')
  from inv have V1: "visited st1 \<subseteq> node_keys st1"
    and V2: "\<forall>v \<in> visited st1. set (deps_of ?ns v) \<subseteq> visited st1"
    and V3: "\<forall>v \<in> visited st1. level_of ?ns v = level_rule ?ns v"
    and V4: "visited st1 \<inter> inProgress_dfs st1 = {}"
    and V5: "levels_ok st1"
    by (simp_all add: dfs_inv_def)
  have m_ge: "- 1 \<le> m" unfolding m by (rule Max_ge) simp_all
  have lev_other: "level_of ?ns' k = level_of ?ns k" if "k \<noteq> n" for k
    using that by (rule level_of_map_entry_other)
  have lev_n: "level_of ?ns' n = m + 1"
    using nk unfolding node_keys_def by (rule level_of_map_entry_same)
  have lev_vis: "level_of ?ns' v = level_of ?ns v" if "v \<in> visited st1" for v
  proof -
    from that nv have "v \<noteq> n" by blast
    then show ?thesis by (rule lev_other)
  qed
  have img: "level_of ?ns' ` set (deps_of ?ns v) = level_of ?ns ` set (deps_of ?ns v)"
    if "set (deps_of ?ns v) \<subseteq> visited st1" for v
  proof (rule level_image_cong, rule ballI)
    fix d assume "d \<in> set (deps_of ?ns v)"
    with that have "d \<in> visited st1" by blast
    then show "level_of ?ns' d = level_of ?ns d" by (rule lev_vis)
  qed
  have rule_same: "level_rule ?ns' v = level_rule ?ns v"
    if "set (deps_of ?ns v) \<subseteq> visited st1" for v
    using img [OF that] by (simp add: level_rule_def)
  show keys: "map fst (st_nodes st') = map fst (st_nodes st1)" by (simp add: f)
  show "\<forall>k. deps_of (st_nodes st') k = deps_of (st_nodes st1) k" by (simp add: f)
  show "inProgress_dfs st' = inProgress_dfs st1 - {n}" by (simp add: f)
  show "visited st' = insert n (visited st1)" by (simp add: f)
  show "l = level_of (st_nodes st') n" by (simp add: f l lev_n)
  show "\<forall>v \<in> visited st1. level_of (st_nodes st') v = level_of (st_nodes st1) v"
    by (simp add: f lev_vis)
  have W1: "visited st' \<subseteq> node_keys st'"
    using V1 nk by (simp add: f node_keys_def dom_map_entry)
  have W2: "\<forall>v \<in> visited st'. set (deps_of (st_nodes st') v) \<subseteq> visited st'"
    using V2 deps by (auto simp: f)
  have W3: "\<forall>v \<in> visited st'. level_of (st_nodes st') v = level_rule (st_nodes st') v"
  proof
    fix v assume "v \<in> visited st'"
    then consider "v = n" | "v \<in> visited st1" "v \<noteq> n" using nv by (auto simp: f)
    then show "level_of (st_nodes st') v = level_rule (st_nodes st') v"
    proof cases
      case 1
      have "level_rule ?ns' n = level_rule ?ns n" using deps by (rule rule_same)
      also have "\<dots> = m + 1" by (simp add: level_rule_def m)
      finally show ?thesis using 1 lev_n by (simp add: f)
    next
      case 2
      from 2(1) V2 have "set (deps_of ?ns v) \<subseteq> visited st1" by blast
      then have "level_rule ?ns' v = level_rule ?ns v" by (rule rule_same)
      with 2 V3 lev_other show ?thesis by (simp add: f)
    qed
  qed
  have W4: "visited st' \<inter> inProgress_dfs st' = {}"
    using V4 by (auto simp: f)
  from V5 have d: "distinct (concat (st_levels st1))"
    and s: "set (concat (st_levels st1)) = visited st1"
    and lv: "\<forall>i < length (st_levels st1). \<forall>k \<in> set (st_levels st1 ! i). level_of ?ns k = int i"
    by (simp_all add: levels_ok_def)
  have W5: "levels_ok st'"
    unfolding levels_ok_def f
  proof (intro conjI allI impI ballI)
    show "distinct (concat (push_level (st_levels st1) (m + 1) n))"
      using d nv s by (intro distinct_concat_push_level) simp_all
    show "set (concat (push_level (st_levels st1) (m + 1) n)) = insert n (visited st1)"
      using set_concat_push_level [of "st_levels st1" "m + 1" n] s by simp
  next
    fix i k
    assume i: "i < length (push_level (st_levels st1) (m + 1) n)"
      and k: "k \<in> set (push_level (st_levels st1) (m + 1) n ! i)"
    from nth_push_level [OF i k]
    show "level_of ?ns' k = int i"
    proof
      assume "k = n \<and> i = nat (m + 1)"
      with lev_n m_ge show ?thesis by simp
    next
      assume a: "i < length (st_levels st1) \<and> k \<in> set (st_levels st1 ! i)"
      then have "k \<in> set (concat (st_levels st1))" by (auto intro: nth_mem)
      with s have "k \<in> visited st1" by simp
      with lev_vis a lv show ?thesis by simp
    qed
  qed
  from W1 W2 W3 W4 W5 show "dfs_inv st'" by (simp add: dfs_inv_def)
qed

declare visit.simps [simp del]

lemma dfs_frame_refl: "dfs_frame st st"
  by (simp add: dfs_frame_def)

lemma dfs_frame_trans:
  assumes "dfs_frame st st1" and "dfs_frame st1 st2"
  shows "dfs_frame st st2"
proof -
  have "level_of (st_nodes st2) v = level_of (st_nodes st) v" if "v \<in> visited st" for v
  proof -
    from that assms(1) have "v \<in> visited st1" by (auto simp: dfs_frame_def)
    with assms(2) have "level_of (st_nodes st2) v = level_of (st_nodes st1) v"
      by (simp add: dfs_frame_def)
    also from that assms(1) have "\<dots> = level_of (st_nodes st) v" by (simp add: dfs_frame_def)
    finally show ?thesis .
  qed
  moreover from assms have "visited st \<subseteq> visited st2" unfolding dfs_frame_def by blast
  ultimately show ?thesis using assms by (simp add: dfs_frame_def)
qed

lemma Max_insert_max:
  assumes "finite S"
  shows "Max (insert (max a b) S) = Max (insert a (insert b S))"
proof (cases "S = {}")
  case True
  then show ?thesis by simp
next
  case False
  with assms show ?thesis by (simp add: max.assoc)
qed

lemma node_keys_map_of: "map_of (st_nodes st) n = Some node \<Longrightarrow> n \<in> node_keys st"
  by (auto simp: node_keys_def dest: map_of_SomeD intro: rev_image_eqI)

lemma visit_partial_correct:
  "dfs_inv st \<Longrightarrow> visit n st = Inr (l, st') \<Longrightarrow> visit_post n st l st'"
  "dfs_inv st \<Longrightarrow> visit_deps ds m st = Inr (l, st') \<Longrightarrow> deps_post ds m st l st'"
proof (induction n st and ds m st arbitrary: l st' and l st' rule: visit_visit_deps.induct)
  case (1 nodeId st)
  show ?case
  proof (cases "nodeId \<in> visited st")
    case True
    with "1.prems"(2) have "l = level_of (st_nodes st) nodeId" and "st' = st"
      by (auto simp: visit.simps level_of_def split: option.splits)
    with True "1.prems"(1) show ?thesis
      by (simp add: visit_post_def dfs_frame_refl)
  next
    case nv: False
    with "1.prems"(2) have nip: "nodeId \<notin> inProgress_dfs st"
      by (auto simp: visit.simps split: if_splits)
    let ?st0 = "st\<lparr>inProgress_dfs := insert nodeId (inProgress_dfs st)\<rparr>"
    from nv nip "1.prems"(2) obtain node m st1 where
      node: "map_of (st_nodes st) nodeId = Some node" and
      deps: "visit_deps (node_dependencies node) (- 1) ?st0 = Inr (m, st1)" and
      fin: "finish_node nodeId m st1 = (l, st')"
      by (auto simp: visit.simps split: option.splits sum.splits)
    have inv0: "dfs_inv ?st0"
      using "1.prems"(1) nv by (simp add: dfs_inv_def node_keys_def levels_ok_def)
    from "1.IH" [OF nv nip node inv0 deps]
    have inv1: "dfs_inv st1" and fr1: "dfs_frame ?st0 st1"
      and sub1: "set (node_dependencies node) \<subseteq> visited st1"
      and m: "m = Max (insert (- 1) (level_of (st_nodes st1) ` set (node_dependencies node)))"
      by (simp_all add: deps_post_def)
    from fr1 have k1: "map fst (st_nodes st1) = map fst (st_nodes st)"
      and d1: "\<forall>k. deps_of (st_nodes st1) k = deps_of (st_nodes st) k"
      and ip1: "inProgress_dfs st1 = insert nodeId (inProgress_dfs st)"
      and v1: "visited st \<subseteq> visited st1"
      and l1: "\<forall>v \<in> visited st. level_of (st_nodes st1) v = level_of (st_nodes st) v"
      by (simp_all add: dfs_frame_def)
    have dn: "deps_of (st_nodes st1) nodeId = node_dependencies node"
      using d1 node by (simp add: deps_of_def)
    have nk: "nodeId \<in> node_keys st1"
    proof -
      from node have "nodeId \<in> node_keys st" by (rule node_keys_map_of)
      then have "nodeId \<in> set (map fst (st_nodes st))" by (simp add: node_keys_def)
      with k1 have "nodeId \<in> set (map fst (st_nodes st1))" by simp
      then show ?thesis by (simp add: node_keys_def)
    qed
    have nv1: "nodeId \<notin> visited st1"
      using inv1 ip1 by (auto simp: dfs_inv_def)
    note fp = finish_node_post [OF inv1 nk nv1 _ _ fin, unfolded dn, OF sub1 m]
    have "dfs_frame st st'"
      unfolding dfs_frame_def
    proof (intro conjI allI ballI)
      show "map fst (st_nodes st') = map fst (st_nodes st)" using fp(2) k1 by simp
      show "deps_of (st_nodes st') k = deps_of (st_nodes st) k" for k using fp(3) d1 by simp
      show "inProgress_dfs st' = inProgress_dfs st" using fp(4) ip1 nip by auto
      show "visited st \<subseteq> visited st'" using fp(5) v1 by auto
      show "level_of (st_nodes st') v = level_of (st_nodes st) v" if "v \<in> visited st" for v
      proof -
        from that v1 have "v \<in> visited st1" by blast
        with fp(7) have "level_of (st_nodes st') v = level_of (st_nodes st1) v" by blast
        with l1 that show ?thesis by simp
      qed
    qed
    with fp(1,5,6) show ?thesis by (simp add: visit_post_def)
  qed
next
  case (2 maxDepLevel st)
  then show ?case by (simp add: deps_post_def dfs_frame_refl)
next
  case (3 depId ds maxDepLevel st)
  from "3.prems"(2) obtain l1 st1 where
    v: "visit depId st = Inr (l1, st1)" and
    d: "visit_deps ds (max maxDepLevel l1) st1 = Inr (l, st')"
    by (auto split: sum.splits)
  from "3.IH"(1) [OF "3.prems"(1) v]
  have inv1: "dfs_inv st1" and fr1: "dfs_frame st st1" and dv: "depId \<in> visited st1"
    and l1: "l1 = level_of (st_nodes st1) depId"
    by (simp_all add: visit_post_def)
  from "3.IH"(2) [OF v refl inv1 d]
  have inv': "dfs_inv st'" and fr': "dfs_frame st1 st'" and sub: "set ds \<subseteq> visited st'"
    and l: "l = Max (insert (max maxDepLevel l1) (level_of (st_nodes st') ` set ds))"
    by (simp_all add: deps_post_def)
  from fr' dv have dv': "depId \<in> visited st'"
    and ld: "level_of (st_nodes st') depId = l1"
    unfolding l1 by (auto simp: dfs_frame_def)
  have "l = Max (insert maxDepLevel (level_of (st_nodes st') ` set (depId # ds)))"
    unfolding l using Max_insert_max [of "level_of (st_nodes st') ` set ds" maxDepLevel l1]
    by (simp add: ld)
  with inv' dfs_frame_trans [OF fr1 fr'] dv' sub show ?case
    by (simp add: deps_post_def)
qed

subsection \<open>The traversal returns on a well-formed map\<close>

lemma dfs_frame_keys: "dfs_frame st st' \<Longrightarrow> node_keys st' = node_keys st"
proof -
  assume "dfs_frame st st'"
  then have "map fst (st_nodes st') = map fst (st_nodes st)" by (simp add: dfs_frame_def)
  then have "set (map fst (st_nodes st')) = set (map fst (st_nodes st))" by simp
  then show ?thesis by (simp add: node_keys_def)
qed

lemma dfs_frame_dep_rel: "dfs_frame st st' \<Longrightarrow> dep_rel (st_nodes st') = dep_rel (st_nodes st)"
  by (simp add: dfs_frame_def dep_rel_def)

lemma dfs_frame_graph_ok: "dfs_frame st st' \<Longrightarrow> graph_ok st \<Longrightarrow> graph_ok st'"
  using dfs_frame_keys [of st st'] dfs_frame_dep_rel [of st st']
  by (simp add: graph_ok_def dfs_frame_def)

lemma map_of_node_keys: "n \<in> node_keys st \<Longrightarrow> \<exists>node. map_of (st_nodes st) n = Some node"
  unfolding node_keys_def by (metis map_of_eq_None_iff not_Some_eq)

lemma visit_succeeds:
  "dfs_inv st \<Longrightarrow> graph_ok st \<Longrightarrow> n \<in> node_keys st \<Longrightarrow>
     \<forall>p \<in> inProgress_dfs st. (p, n) \<in> (dep_rel (st_nodes st))\<^sup>+ \<Longrightarrow>
     \<exists>l st'. visit n st = Inr (l, st')"
  "dfs_inv st \<Longrightarrow> graph_ok st \<Longrightarrow> set ds \<subseteq> node_keys st \<Longrightarrow>
     \<forall>p \<in> inProgress_dfs st. \<forall>d \<in> set ds. (p, d) \<in> (dep_rel (st_nodes st))\<^sup>+ \<Longrightarrow>
     \<exists>l st'. visit_deps ds m st = Inr (l, st')"
proof (induction n st and ds m st rule: visit_visit_deps.induct)
  case (1 nodeId st)
  from "1.prems"(3) obtain node where node: "map_of (st_nodes st) nodeId = Some node"
    using map_of_node_keys by blast
  show ?case
  proof (cases "nodeId \<in> visited st")
    case True
    with node show ?thesis by (simp add: visit.simps)
  next
    case nv: False
    have nip: "nodeId \<notin> inProgress_dfs st"
    proof
      assume "nodeId \<in> inProgress_dfs st"
      with "1.prems"(4) have "(nodeId, nodeId) \<in> (dep_rel (st_nodes st))\<^sup>+" by blast
      with "1.prems"(2) show False by (auto simp: graph_ok_def acyclic_def)
    qed
    let ?st0 = "st\<lparr>inProgress_dfs := insert nodeId (inProgress_dfs st)\<rparr>"
    let ?R = "dep_rel (st_nodes st)"
    have dn: "deps_of (st_nodes st) nodeId = node_dependencies node"
      using node by (simp add: deps_of_def)
    have inv0: "dfs_inv ?st0"
      using "1.prems"(1) nv by (simp add: dfs_inv_def node_keys_def levels_ok_def)
    have g0: "graph_ok ?st0"
      using "1.prems"(2) by (simp add: graph_ok_def node_keys_def)
    have sub: "set (node_dependencies node) \<subseteq> node_keys ?st0"
    proof -
      from "1.prems"(2) have "set (deps_of (st_nodes st) nodeId) \<subseteq> node_keys st"
        by (simp add: graph_ok_def)
      moreover have "node_keys ?st0 = node_keys st" by (simp add: node_keys_def)
      ultimately show ?thesis using dn by simp
    qed
    have edge: "(nodeId, d) \<in> ?R" if "d \<in> set (node_dependencies node)" for d
      using that dn by (simp add: dep_rel_def)
    have anc: "\<forall>p \<in> inProgress_dfs ?st0. \<forall>d \<in> set (node_dependencies node).
                 (p, d) \<in> (dep_rel (st_nodes ?st0))\<^sup>+"
    proof (intro ballI)
      fix p d assume p: "p \<in> inProgress_dfs ?st0" and d: "d \<in> set (node_dependencies node)"
      show "(p, d) \<in> (dep_rel (st_nodes ?st0))\<^sup>+"
      proof (cases "p = nodeId")
        case True
        with edge [OF d] show ?thesis by auto
      next
        case False
        with p have "p \<in> inProgress_dfs st" by simp
        with "1.prems"(4) have "(p, nodeId) \<in> ?R\<^sup>+" by blast
        with edge [OF d] show ?thesis by (simp add: trancl_into_trancl)
      qed
    qed
    from "1.IH" [OF nv nip node inv0 g0 sub anc] obtain m st1
      where "visit_deps (node_dependencies node) (- 1) ?st0 = Inr (m, st1)" by blast
    with nv nip node show ?thesis
      by (cases "finish_node nodeId m st1") (simp add: visit.simps)
  qed
next
  case (2 maxDepLevel st)
  then show ?case by simp
next
  case (3 depId ds maxDepLevel st)
  from "3.prems" have "\<exists>l st'. visit depId st = Inr (l, st')"
    by (intro "3.IH"(1)) auto
  then obtain l1 st1 where v: "visit depId st = Inr (l1, st1)" by blast
  from visit_partial_correct(1) [OF "3.prems"(1) v]
  have inv1: "dfs_inv st1" and fr: "dfs_frame st st1" by (simp_all add: visit_post_def)
  have g1: "graph_ok st1" using fr "3.prems"(2) by (rule dfs_frame_graph_ok)
  have k1: "set ds \<subseteq> node_keys st1"
    using "3.prems"(3) dfs_frame_keys [OF fr] by simp
  have a1: "\<forall>p \<in> inProgress_dfs st1. \<forall>d \<in> set ds. (p, d) \<in> (dep_rel (st_nodes st1))\<^sup>+"
    using "3.prems"(4) fr dfs_frame_dep_rel [OF fr] by (simp add: dfs_frame_def)
  from "3.IH"(2) [OF v refl inv1 g1 k1 a1] v show ?case by simp
qed

lemma visit_all_partial:
  "dfs_inv st \<Longrightarrow> visit_all ks st = Inr st' \<Longrightarrow>
     dfs_inv st' \<and> dfs_frame st st' \<and> set ks \<subseteq> visited st'"
proof (induction ks arbitrary: st)
  case Nil
  then show ?case by (simp add: dfs_frame_refl)
next
  case (Cons k ks)
  from Cons.prems(2) obtain l st1 where v: "visit k st = Inr (l, st1)"
    and r: "visit_all ks st1 = Inr st'"
    by (auto split: sum.splits)
  from visit_partial_correct(1) [OF Cons.prems(1) v]
  have inv1: "dfs_inv st1" and fr: "dfs_frame st st1" and kv: "k \<in> visited st1"
    by (simp_all add: visit_post_def)
  from Cons.IH [OF inv1 r] have inv': "dfs_inv st'" and fr': "dfs_frame st1 st'"
    and sub: "set ks \<subseteq> visited st'" by simp_all
  from fr' kv have "k \<in> visited st'" by (auto simp: dfs_frame_def)
  with inv' dfs_frame_trans [OF fr fr'] sub show ?case by simp
qed

lemma visit_all_succeeds:
  "dfs_inv st \<Longrightarrow> graph_ok st \<Longrightarrow> set ks \<subseteq> node_keys st \<Longrightarrow> inProgress_dfs st = {} \<Longrightarrow>
     \<exists>st'. visit_all ks st = Inr st'"
proof (induction ks arbitrary: st)
  case Nil
  then show ?case by simp
next
  case (Cons k ks)
  from Cons.prems have "\<exists>l st'. visit k st = Inr (l, st')"
    by (intro visit_succeeds(1)) auto
  then obtain l st1 where v: "visit k st = Inr (l, st1)" by blast
  from visit_partial_correct(1) [OF Cons.prems(1) v]
  have inv1: "dfs_inv st1" and fr: "dfs_frame st st1" by (simp_all add: visit_post_def)
  have "graph_ok st1" using fr Cons.prems(2) by (rule dfs_frame_graph_ok)
  moreover have "set ks \<subseteq> node_keys st1"
    using Cons.prems(3) dfs_frame_keys [OF fr] by simp
  moreover have "inProgress_dfs st1 = {}"
    using fr Cons.prems(4) by (simp add: dfs_frame_def)
  ultimately have "\<exists>st'. visit_all ks st1 = Inr st'"
    using inv1 by (intro Cons.IH)
  with v show ?case by simp
qed

lemma dfs_inv_initial: "dfs_inv (initial_visit_state ns)"
  by (simp add: dfs_inv_def initial_visit_state_def levels_ok_def)

subsection \<open>The node map of a batch\<close>

lemma createNodes_snoc:
  "createNodes (ts @ [t]) =
     AList.update (task_id t)
       \<lparr>task = t, node_dependencies = dependencies t, dependents = [], level = 0\<rparr>
       (createNodes ts)"
  by (simp add: createNodes_def)

lemma createNodes_keys:
  "distinct (map task_id tasks) \<Longrightarrow> map fst (createNodes tasks) = map task_id tasks"
proof (induction tasks rule: rev_induct)
  case Nil
  then show ?case by (simp add: createNodes_def)
next
  case (snoc t ts)
  then have "map fst (createNodes ts) = map task_id ts" and "task_id t \<notin> task_id ` set ts"
    by simp_all
  then show ?case by (simp add: createNodes_snoc update_keys)
qed

lemma createNodes_deps:
  "distinct (map task_id tasks) \<Longrightarrow> t \<in> set tasks \<Longrightarrow>
     deps_of (createNodes tasks) (task_id t) = dependencies t"
proof (induction tasks rule: rev_induct)
  case Nil
  then show ?case by simp
next
  case (snoc u ts)
  show ?case
  proof (cases "t = u")
    case True
    then show ?thesis by (simp add: createNodes_snoc deps_of_def update_conv')
  next
    case False
    with snoc.prems(2) have t: "t \<in> set ts" by simp
    then have "task_id t \<in> task_id ` set ts" by (rule imageI)
    moreover from snoc.prems(1) have "task_id u \<notin> task_id ` set ts" and dts: "distinct (map task_id ts)"
      by simp_all
    ultimately have ne: "task_id t \<noteq> task_id u" by metis
    from snoc.IH [OF dts t] have "deps_of (createNodes ts) (task_id t) = dependencies t" .
    with ne show ?thesis by (simp add: createNodes_snoc deps_of_def update_conv')
  qed
qed

lemma link_frame_refl: "link_frame ns ns"
  by (simp add: link_frame_def)

lemma link_frame_trans: "link_frame a b \<Longrightarrow> link_frame b c \<Longrightarrow> link_frame a c"
  by (simp add: link_frame_def)

lemma link_frame_addDependent: "link_frame ns (addDependent ns nodeId depId)"
proof (cases "map_of ns depId")
  case None
  then show ?thesis by (simp add: addDependent_def link_frame_refl)
next
  case (Some depNode)
  then have "depId \<in> fst ` set ns" by (auto dest: map_of_SomeD intro: rev_image_eqI)
  with Some show ?thesis
    by (simp add: addDependent_def link_frame_def update_keys deps_of_def update_conv')
qed

lemma link_frame_inner:
  "link_frame ns (foldl (\<lambda>ns'' depId. addDependent ns'' nodeId depId) ns ds)"
proof (induction ds arbitrary: ns)
  case Nil
  then show ?case by (simp add: link_frame_refl)
next
  case (Cons d ds)
  from link_frame_addDependent [of ns nodeId d] Cons [of "addDependent ns nodeId d"]
  show ?case by (simp add: link_frame_trans)
qed

lemma link_frame_outer:
  "link_frame ns
     (foldl (\<lambda>ns' (nodeId, node).
               foldl (\<lambda>ns'' depId. addDependent ns'' nodeId depId) ns' (node_dependencies node))
        ns xs)"
proof (induction xs arbitrary: ns)
  case Nil
  then show ?case by (simp add: link_frame_refl)
next
  case (Cons x xs)
  obtain nodeId node where x: "x = (nodeId, node)" by (cases x)
  let ?ns1 = "foldl (\<lambda>ns'' depId. addDependent ns'' nodeId depId) ns (node_dependencies node)"
  have "link_frame ns ?ns1" by (rule link_frame_inner)
  moreover note Cons [of ?ns1]
  ultimately show ?case unfolding x by (simp add: link_frame_trans)
qed

lemma link_frame_linkDependents: "link_frame ns (linkDependents ns)"
  unfolding linkDependents_def by (rule link_frame_outer)

lemma buildDAG_keys:
  assumes "distinct (map task_id tasks)"
  shows "map fst (linkDependents (createNodes tasks)) = map task_id tasks"
  using link_frame_linkDependents [of "createNodes tasks"] createNodes_keys [OF assms]
  by (simp add: link_frame_def)

lemma buildDAG_deps:
  assumes "distinct (map task_id tasks)" and "t \<in> set tasks"
  shows "deps_of (linkDependents (createNodes tasks)) (task_id t) = dependencies t"
  using link_frame_linkDependents [of "createNodes tasks"] createNodes_deps [OF assms]
  by (simp add: link_frame_def)

lemma deps_of_not_key: "k \<notin> fst ` set ns \<Longrightarrow> deps_of ns k = []"
proof -
  assume "k \<notin> fst ` set ns"
  then have "map_of ns k = None" by (simp add: map_of_eq_None_iff)
  then show ?thesis by (simp add: deps_of_def)
qed

lemma buildDAG_dep_rel:
  assumes "distinct (map task_id tasks)"
  shows "dep_rel (linkDependents (createNodes tasks)) = dependency_edges tasks"
proof -
  let ?ns = "linkDependents (createNodes tasks)"
  have keys: "fst ` set ?ns = task_id ` set tasks"
    using arg_cong [OF buildDAG_keys [OF assms], of set] by simp
  show ?thesis
  proof (intro set_eqI iffI; clarify)
    fix k d assume "(k, d) \<in> dep_rel ?ns"
    then have d: "d \<in> set (deps_of ?ns k)" by (simp add: dep_rel_def)
    have "k \<in> fst ` set ?ns"
    proof (rule ccontr)
      assume "k \<notin> fst ` set ?ns"
      then have "deps_of ?ns k = []" by (rule deps_of_not_key)
      with d show False by simp
    qed
    with keys obtain t where t: "t \<in> set tasks" "k = task_id t" by auto
    with d buildDAG_deps [OF assms t(1)] show "(k, d) \<in> dependency_edges tasks"
      by (auto simp: dependency_edges_def)
  next
    fix k d assume "(k, d) \<in> dependency_edges tasks"
    then obtain t where t: "t \<in> set tasks" "k = task_id t" "d \<in> set (dependencies t)"
      by (auto simp: dependency_edges_def)
    with buildDAG_deps [OF assms t(1)] show "(k, d) \<in> dep_rel ?ns"
      by (simp add: dep_rel_def)
  qed
qed

subsection \<open>The errors of the traversal\<close>






subsection \<open>Levels of an acyclic batch\<close>

lemma level_rule_eq:
  assumes "\<forall>d \<in> set (deps_of ns k). 0 \<le> level_of ns d"
  shows "level_rule ns k =
           (if deps_of ns k = [] then 0 else 1 + Max (level_of ns ` set (deps_of ns k)))"
proof (cases "deps_of ns k = []")
  case True
  then show ?thesis by (simp add: level_rule_def)
next
  case False
  let ?S = "level_of ns ` set (deps_of ns k)"
  from False obtain d where d: "d \<in> set (deps_of ns k)" by (cases "deps_of ns k") auto
  have fin: "finite ?S" by (rule finite_imageI) (rule finite_set)
  from d have mem: "level_of ns d \<in> ?S" by (rule imageI)
  have ne: "?S \<noteq> {}" using mem by (metis empty_iff)
  from fin mem have "level_of ns d \<le> Max ?S" by (rule Max_ge)
  moreover from assms d have "0 \<le> level_of ns d" by blast
  ultimately have le: "- 1 \<le> Max ?S" by linarith
  have "Max (insert (- 1) ?S) = max (- 1) (Max ?S)" using fin ne by (rule Max_insert)
  also from le have "\<dots> = Max ?S" by (rule max_absorb2)
  finally have "level_rule ns k = Max ?S + 1" by (simp only: level_rule_def)
  with False show ?thesis by (simp only: if_False add.commute)
qed

lemma level_rule_nonneg: "0 \<le> level_rule ns k"
proof -
  have "- 1 \<le> Max (insert (- 1) (level_of ns ` set (deps_of ns k)))"
    by (rule Max_ge) simp_all
  then show ?thesis unfolding level_rule_def by linarith
qed

text \<open>
  Claim C8. For a batch of tasks with distinct ids in which every dependency names a task
  of the batch and the dependencies have no cycle, \<^verbatim>\<open>buildDAG\<close> returns a graph. It has one
  node for each task, in the order of the tasks; the level of a task without dependencies
  is 0, and the level of any other task is one more than the greatest level of its
  dependencies; and \<^verbatim>\<open>levels\<close> holds every node exactly once, at the index that is its level.
\<close>

theorem buildDAG_assigns_levels:
  assumes d: "distinct (map task_id tasks)"
    and closed: "\<forall>t \<in> set tasks. set (dependencies t) \<subseteq> task_id ` set tasks"
    and acyc: "acyclic (dependency_edges tasks)"
  shows "\<exists>dag. buildDAG tasks = Inr dag
     \<and> map fst (nodes dag) = map task_id tasks
     \<and> (\<forall>t \<in> set tasks.
          level_of (nodes dag) (task_id t) =
            (if dependencies t = [] then 0
             else 1 + Max (level_of (nodes dag) ` set (dependencies t))))
     \<and> distinct (concat (levels dag))
     \<and> set (concat (levels dag)) = task_id ` set tasks
     \<and> (\<forall>i < length (levels dag). \<forall>k \<in> set (levels dag ! i).
          level_of (nodes dag) k = int i)"
proof -
  let ?ns = "linkDependents (createNodes tasks)"
  let ?st = "initial_visit_state ?ns"
  have keys: "fst ` set ?ns = task_id ` set tasks"
    using arg_cong [OF buildDAG_keys [OF d], of set] by simp
  have nk: "node_keys ?st = task_id ` set tasks"
    using keys by (simp add: node_keys_def initial_visit_state_def)
  have cl: "set (deps_of (st_nodes ?st) k) \<subseteq> node_keys ?st" for k
  proof (cases "k \<in> fst ` set ?ns")
    case False
    then show ?thesis by (simp add: initial_visit_state_def deps_of_not_key)
  next
    case True
    with keys obtain t where t: "t \<in> set tasks" "k = task_id t" by auto
    from closed t(1) have "set (dependencies t) \<subseteq> task_id ` set tasks" by blast
    moreover have "deps_of (st_nodes ?st) k = dependencies t"
      using buildDAG_deps [OF d t(1)] t(2) by (simp add: initial_visit_state_def)
    ultimately show ?thesis unfolding nk by simp
  qed
  have dr: "dep_rel (st_nodes ?st) = dependency_edges tasks"
    using buildDAG_dep_rel [OF d] by (simp add: initial_visit_state_def)
  have g: "graph_ok ?st"
    unfolding graph_ok_def dr using cl acyc by blast
  have "\<exists>st'. visit_all (map fst ?ns) ?st = Inr st'"
    using dfs_inv_initial g
  proof (rule visit_all_succeeds)
    show "set (map fst ?ns) \<subseteq> node_keys ?st"
      by (simp add: node_keys_def initial_visit_state_def)
    show "inProgress_dfs ?st = {}" by (simp add: initial_visit_state_def)
  qed
  then obtain st' where va: "visit_all (map fst ?ns) ?st = Inr st'" by blast
  let ?dag = "\<lparr>nodes = st_nodes st', levels = st_levels st', criticalPath = []\<rparr>"
  from va have b: "buildDAG tasks = Inr ?dag" by (simp add: buildDAG_def Let_def)
  from visit_all_partial [OF dfs_inv_initial va]
  have inv: "dfs_inv st'" and fr: "dfs_frame ?st st'"
    and all: "set (map fst ?ns) \<subseteq> visited st'" by simp_all
  from fr have k': "map fst (st_nodes st') = map task_id tasks"
    using buildDAG_keys [OF d] by (simp add: dfs_frame_def initial_visit_state_def)
  from inv have vk: "visited st' \<subseteq> node_keys st'" by (simp add: dfs_inv_def)
  have nk': "node_keys st' = task_id ` set tasks"
    using dfs_frame_keys [OF fr] nk by simp
  from all keys have "task_id ` set tasks \<subseteq> visited st'" by simp
  with vk nk' have vis: "visited st' = task_id ` set tasks" by blast
  have lev_nonneg: "0 \<le> level_of (st_nodes st') k" if "k \<in> visited st'" for k
  proof -
    from inv that have "level_of (st_nodes st') k = level_rule (st_nodes st') k"
      by (simp add: dfs_inv_def)
    with level_rule_nonneg [of "st_nodes st'" k] show ?thesis by simp
  qed
  have lev: "level_of (st_nodes st') (task_id t) =
            (if dependencies t = [] then 0
             else 1 + Max (level_of (st_nodes st') ` set (dependencies t)))"
    if t: "t \<in> set tasks" for t
  proof -
    from t vis have tv: "task_id t \<in> visited st'" by simp
    from fr have "deps_of (st_nodes st') (task_id t) = deps_of ?ns (task_id t)"
      by (simp add: dfs_frame_def initial_visit_state_def)
    with buildDAG_deps [OF d t] have dt: "deps_of (st_nodes st') (task_id t) = dependencies t"
      by simp
    from inv tv have sub: "set (deps_of (st_nodes st') (task_id t)) \<subseteq> visited st'"
      by (simp add: dfs_inv_def)
    have "\<forall>x \<in> set (deps_of (st_nodes st') (task_id t)). 0 \<le> level_of (st_nodes st') x"
      using sub lev_nonneg by blast
    then have r: "level_rule (st_nodes st') (task_id t) =
        (if deps_of (st_nodes st') (task_id t) = [] then 0
         else 1 + Max (level_of (st_nodes st') ` set (deps_of (st_nodes st') (task_id t))))"
      by (rule level_rule_eq)
    from inv tv have "level_of (st_nodes st') (task_id t) = level_rule (st_nodes st') (task_id t)"
      by (simp add: dfs_inv_def)
    with r show ?thesis unfolding dt by (simp only:)
  qed
  from inv have lo: "levels_ok st'" by (simp add: dfs_inv_def)
  from lo have 4: "distinct (concat (st_levels st'))" by (simp add: levels_ok_def)
  from lo vis have 5: "set (concat (st_levels st')) = task_id ` set tasks"
    by (simp add: levels_ok_def)
  from lo have 6: "\<forall>i < length (st_levels st'). \<forall>k \<in> set (st_levels st' ! i).
          level_of (st_nodes st') k = int i" by (simp add: levels_ok_def)
  have n: "nodes ?dag = st_nodes st'" and l: "levels ?dag = st_levels st'" by simp_all
  show ?thesis
  proof (intro exI [of _ ?dag] conjI)
    show "buildDAG tasks = Inr ?dag" by (rule b)
    show "map fst (nodes ?dag) = map task_id tasks" unfolding n by (rule k')
    show "\<forall>t \<in> set tasks.
          level_of (nodes ?dag) (task_id t) =
            (if dependencies t = [] then 0
             else 1 + Max (level_of (nodes ?dag) ` set (dependencies t)))"
      unfolding n using lev by blast
    show "distinct (concat (levels ?dag))" unfolding l by (rule 4)
    show "set (concat (levels ?dag)) = task_id ` set tasks" unfolding l by (rule 5)
    show "\<forall>i < length (levels ?dag). \<forall>k \<in> set (levels ?dag ! i).
          level_of (nodes ?dag) k = int i" unfolding n l by (rule 6)
  qed
qed

theorem buildDAG_assigns_levels_witness:
  "distinct (map task_id unordered_tasks)
   \<and> set (concat (map dependencies unordered_tasks)) \<subseteq> task_id ` set unordered_tasks
   \<and> acyclic (dependency_edges unordered_tasks)
   \<and> buildDAG unordered_tasks = Inr unordered_dag
   \<and> map fst (nodes unordered_dag) = map task_id unordered_tasks
   \<and> level_of (nodes unordered_dag) ''D'' =
        1 + Max (level_of (nodes unordered_dag) ` set [''B'', ''C''])
   \<and> map (level_of (nodes unordered_dag)) [''A'', ''B'', ''C'', ''D''] = [0, 1, 0, 2]
   \<and> levels unordered_dag = [[''A'', ''C''], [''B''], [''D'']]"
proof -
  have a: "distinct (map task_id unordered_tasks)" by code_simp
  have b: "\<forall>t \<in> set unordered_tasks. set (dependencies t) \<subseteq> task_id ` set unordered_tasks"
    by code_simp
  have c: "acyclic (dependency_edges unordered_tasks)"
  proof (rule acyclicI_order)
    fix x y assume "(x, y) \<in> dependency_edges unordered_tasks"
    then show "(if y = ''D'' then 2 else if y = ''B'' then 1 else (0::nat))
                 < (if x = ''D'' then 2 else if x = ''B'' then 1 else 0)"
      by (auto simp: dependency_edges_def unordered_tasks_def mkTask_def)
  qed
  have e: "buildDAG unordered_tasks = Inr unordered_dag" by code_simp
  have t: "mkTask ''D'' [''B'', ''C''] 1 \<in> set unordered_tasks"
    by (simp add: unordered_tasks_def)
  from buildDAG_assigns_levels [OF a b c] e
  have k: "map fst (nodes unordered_dag) = map task_id unordered_tasks"
    and l: "\<forall>t \<in> set unordered_tasks.
          level_of (nodes unordered_dag) (task_id t) =
            (if dependencies t = [] then 0
             else 1 + Max (level_of (nodes unordered_dag) ` set (dependencies t)))"
    by auto
  from l t have d: "level_of (nodes unordered_dag) ''D'' =
        1 + Max (level_of (nodes unordered_dag) ` set [''B'', ''C''])"
    by (auto simp: mkTask_def)
  have m: "map (level_of (nodes unordered_dag)) [''A'', ''B'', ''C'', ''D''] = [0, 1, 0, 2]"
    by code_simp
  have v: "levels unordered_dag = [[''A'', ''C''], [''B''], [''D'']]"
    by (simp add: unordered_dag_def)
  have b': "set (concat (map dependencies unordered_tasks)) \<subseteq> task_id ` set unordered_tasks"
    using b by auto
  from a b' c e k d m v show ?thesis by blast
qed

subsection \<open>A dependency that is not in the batch\<close>



section \<open>Steps of the executor\<close>

lemma dispatch_fields:
  "completed (dispatch agents st t) = completed st"
  "queue (dispatch agents st t) = remove1 t (queue st)"
  "agents (agentTypeOf t) = None \<Longrightarrow> inProgress (dispatch agents st t) = inProgress st"
  "agents (agentTypeOf t) = None \<Longrightarrow> running (dispatch agents st t) = running st"
  "results (dispatch agents st t) = results st"
  "agents (agentTypeOf t) = Some a \<Longrightarrow>
     inProgress (dispatch agents st t) = set_add (task_id t) (inProgress st)"
  "agents (agentTypeOf t) = Some a \<Longrightarrow> running (dispatch agents st t) = running st @ [t]"
  "agents (agentTypeOf t) = None \<Longrightarrow> rejected (dispatch agents st t) = rejected st @ [t]"
  "agents (agentTypeOf t) = Some a \<Longrightarrow> rejected (dispatch agents st t) = rejected st"
  by (simp_all add: dispatch_def executeTask_def split: option.splits)

lemma dispatch_history: "history (dispatch agents st t) = history st @ [Dispatched t]"
  by (simp add: dispatch_def executeTask_def split: option.splits)

lemma completed_foldl_dispatch [simp]:
  "completed (foldl (dispatch agents) st ts) = completed st"
  by (induction ts arbitrary: st) (simp_all add: dispatch_fields)

lemma length_set_add: "length (set_add x s) \<le> Suc (length s)"
  by (simp add: set_add_def)

lemma length_inProgress_dispatch:
  "length (inProgress (dispatch agents st t)) \<le> Suc (length (inProgress st))"
  by (cases "agents (agentTypeOf t)") (simp_all add: dispatch_fields length_set_add)

lemma length_inProgress_foldl_dispatch:
  "length (inProgress (foldl (dispatch agents) st ts)) \<le> length (inProgress st) + length ts"
proof (induction ts arbitrary: st)
  case Nil
  then show ?case by simp
next
  case (Cons t ts)
  have "length (inProgress (foldl (dispatch agents) (dispatch agents st t) ts))
          \<le> length (inProgress (dispatch agents st t)) + length ts"
    by (rule Cons.IH)
  also have "\<dots> \<le> Suc (length (inProgress st)) + length ts"
    using length_inProgress_dispatch [of agents st t] by simp
  finally show ?case by simp
qed

lemma length_slice0: "0 \<le> e \<Longrightarrow> int (length (slice0 xs e)) \<le> e"
  by (simp add: slice0_def)

lemma set_slice0: "set (slice0 xs e) \<subseteq> set xs"
  by (auto simp: slice0_def dest: in_set_takeD)

lemma set_tasksToExecute: "set (tasksToExecute maxC st) \<subseteq> set (readyTasks st)"
  by (simp add: tasksToExecute_def set_slice0)

lemma readyTasks_iff:
  "t \<in> set (readyTasks st) \<longleftrightarrow>
     t \<in> set (queue st) \<and> set (dependencies t) \<subseteq> set (completed st)"
  by (auto simp: readyTasks_def list_all_iff)

lemma settle_cases:
  "settle st (Settle t outcome) =
     (if t \<notin> set (running st) then st
      else case outcome of
             Resolved r \<Rightarrow>
               st\<lparr>completed := set_add (task_id t) (completed st),
                  inProgress := set_delete (task_id t) (inProgress st),
                  running := remove1 t (running st),
                  results := results st @ [r],
                  history := history st @ [Recorded t r]\<rparr>
           | Rejected msg \<Rightarrow>
               st\<lparr>inProgress := set_delete (task_id t) (inProgress st),
                  running := remove1 t (running st),
                  results := results st @ [failure_result t msg],
                  history := history st @ [Recorded t (failure_result t msg)]\<rparr>)"
  by (simp add: settle_def push_result_def split: settled.splits)

lemma length_inProgress_settle: "length (inProgress (settle st ev)) \<le> length (inProgress st)"
  by (cases ev) (simp_all add: settle_def push_result_def set_delete_def split: settled.splits)

lemma loop_body_Continue:
  "loop_body maxC agents st = Continue st' \<Longrightarrow>
     st' = foldl (dispatch agents) st (tasksToExecute maxC st)"
  by (simp add: loop_body_def Let_def split: if_splits)

lemma loop_body_Throw:
  "loop_body maxC agents st = Throw e \<Longrightarrow> e = deadlock_error"
  by (simp add: loop_body_def Let_def split: if_splits)

subsection \<open>The concurrency ceiling\<close>

lemma reachable_inProgress_le:
  assumes "reachable maxC agents tasks st" and "0 \<le> maxC"
  shows "int (length (inProgress st)) \<le> maxC"
  using assms
proof (induction rule: reachable.induct)
  case reach_init
  then show ?case by (simp add: initial_state_def)
next
  case (reach_round st st')
  let ?ts = "tasksToExecute maxC st"
  from reach_round have le: "int (length (inProgress st)) \<le> maxC" by simp
  then have "int (length ?ts) \<le> maxC - int (length (inProgress st))"
    by (simp add: tasksToExecute_def length_slice0)
  moreover have "st' = foldl (dispatch agents) st ?ts"
    using reach_round.hyps(3) by (rule loop_body_Continue)
  moreover have "length (inProgress (foldl (dispatch agents) st ?ts))
                   \<le> length (inProgress st) + length ?ts"
    by (rule length_inProgress_foldl_dispatch)
  ultimately show ?case by auto
next
  case (reach_settle st ev)
  with length_inProgress_settle [of st ev] show ?case by linarith
qed

subsection \<open>Distinct ids\<close>

lemma map_remove1_distinct:
  "distinct (map f xs) \<Longrightarrow> t \<in> set xs \<Longrightarrow> map f (remove1 t xs) = removeAll (f t) (map f xs)"
proof (induction xs)
  case Nil
  then show ?case by simp
next
  case (Cons x xs)
  show ?case
  proof (cases "t = x")
    case True
    with Cons.prems have "f x \<notin> set (map f xs)" by simp
    with True show ?thesis by simp
  next
    case False
    with Cons.prems have ts: "t \<in> set xs" by simp
    from Cons.prems have "f x \<notin> f ` set xs" by simp
    with ts have "f t \<noteq> f x" by (metis image_eqI)
    with Cons ts False show ?thesis by simp
  qed
qed

lemma distinct_ids_remove1:
  assumes "distinct (map f (q @ r))" and "t \<in> set q"
  shows "distinct (map f (remove1 t q @ r @ [t]))" and "distinct (map f (remove1 t q @ r))"
proof -
  from assms(1) have dqr: "distinct (q @ r)" and inj: "inj_on f (set (q @ r))"
    by (simp_all only: distinct_map)
  from dqr have dq: "distinct q" and dr: "distinct r" and disj: "set q \<inter> set r = {}"
    by simp_all
  have sub1: "set (remove1 t q) \<subseteq> set q" by (rule set_remove1_subset)
  have sub: "set (remove1 t q @ r @ [t]) \<subseteq> set (q @ r)"
    using sub1 assms(2) by auto
  have i: "inj_on f (set (remove1 t q @ r @ [t]))"
    using inj sub by (rule inj_on_subset)
  have "t \<notin> set (remove1 t q)" using dq by simp
  moreover have "t \<notin> set r" using disj assms(2) by blast
  moreover have "set (remove1 t q) \<inter> set r = {}" using sub1 disj by blast
  moreover have "distinct (remove1 t q)" using dq by simp
  ultimately have "distinct (remove1 t q @ r @ [t])"
    using dr by simp
  with i show "distinct (map f (remove1 t q @ r @ [t]))"
    by (simp only: distinct_map)
  then show "distinct (map f (remove1 t q @ r))" by simp
qed

lemma dispatch_unique_inv:
  assumes "unique_inv st" and "t \<in> set (queue st)"
  shows "unique_inv (dispatch agents st t)"
proof -
  from assms(1) have d: "distinct (map task_id (queue st @ running st))"
    and ip: "inProgress st = map task_id (running st)"
    and c: "set (completed st) \<inter> task_id ` set (queue st @ running st) = {}"
    by (simp_all add: unique_inv_def)
  have img: "task_id ` set (remove1 t (queue st) @ running st @ [t])
               \<subseteq> task_id ` set (queue st @ running st)"
    using assms(2) by (auto dest: set_remove1_subset [THEN subsetD])
  with c have c1: "set (completed st) \<inter> task_id ` set (remove1 t (queue st) @ running st @ [t]) = {}"
    by blast
  then have c2: "set (completed st) \<inter> task_id ` set (remove1 t (queue st) @ running st) = {}"
    by auto
  note dd = distinct_ids_remove1 [OF d assms(2)]
  show ?thesis
  proof (cases "agents (agentTypeOf t)")
    case None
    then have "inProgress (dispatch agents st t) = inProgress st"
      "running (dispatch agents st t) = running st"
      by (simp_all add: dispatch_fields)
    with dd(2) ip c2 show ?thesis
      by (simp only: unique_inv_def dispatch_fields(1,2))
  next
    case (Some a)
    from d assms(2) have "task_id t \<notin> set (map task_id (running st))"
      by auto
    then have "set_add (task_id t) (map task_id (running st)) = map task_id (running st @ [t])"
      by (simp add: set_add_def)
    moreover from Some have "inProgress (dispatch agents st t) = set_add (task_id t) (inProgress st)"
      "running (dispatch agents st t) = running st @ [t]"
      by (simp_all add: dispatch_fields)
    ultimately show ?thesis
      using dd(1) ip c1 by (simp only: unique_inv_def dispatch_fields(1,2))
  qed
qed

lemma foldl_dispatch_unique_inv:
  "unique_inv st \<Longrightarrow> distinct ts \<Longrightarrow> set ts \<subseteq> set (queue st) \<Longrightarrow>
     unique_inv (foldl (dispatch agents) st ts)"
proof (induction ts arbitrary: st)
  case Nil
  then show ?case by simp
next
  case (Cons t ts)
  from Cons.prems have t: "t \<in> set (queue st)" by simp
  have dq: "distinct (queue st)"
    using Cons.prems(1) by (auto simp: unique_inv_def distinct_map)
  have "set ts \<subseteq> set (queue (dispatch agents st t))"
    using Cons.prems(2,3) dq by (auto simp: dispatch_fields)
  with Cons.IH [OF dispatch_unique_inv [OF Cons.prems(1) t]] Cons.prems(2)
  show ?case by simp
qed

lemma distinct_slice0: "distinct xs \<Longrightarrow> distinct (slice0 xs e)"
  by (simp add: slice0_def)

lemma tasksToExecute_unique:
  assumes "unique_inv st"
  shows "distinct (tasksToExecute maxC st)" and "set (tasksToExecute maxC st) \<subseteq> set (queue st)"
proof -
  from assms have "distinct (queue st)" by (auto simp: unique_inv_def distinct_map)
  then show "distinct (tasksToExecute maxC st)"
    by (simp add: tasksToExecute_def readyTasks_def distinct_slice0)
  show "set (tasksToExecute maxC st) \<subseteq> set (queue st)"
    using set_tasksToExecute [of maxC st] by (auto simp: readyTasks_iff)
qed

lemma set_set_add [simp]: "set (set_add x s) = insert x (set s)"
  by (auto simp: set_add_def)

lemma settle_Resolved_fields:
  assumes "t \<in> set (running st)"
  shows "queue (settle st (Settle t (Resolved r))) = queue st"
    and "running (settle st (Settle t (Resolved r))) = remove1 t (running st)"
    and "inProgress (settle st (Settle t (Resolved r))) = set_delete (task_id t) (inProgress st)"
    and "completed (settle st (Settle t (Resolved r))) = set_add (task_id t) (completed st)"
    and "results (settle st (Settle t (Resolved r))) = results st @ [r]"
    and "history (settle st (Settle t (Resolved r))) = history st @ [Recorded t r]"
  using assms by (simp_all add: settle_cases)

lemma settle_Rejected_fields:
  assumes "t \<in> set (running st)"
  shows "queue (settle st (Settle t (Rejected msg))) = queue st"
    and "running (settle st (Settle t (Rejected msg))) = remove1 t (running st)"
    and "inProgress (settle st (Settle t (Rejected msg))) = set_delete (task_id t) (inProgress st)"
    and "completed (settle st (Settle t (Rejected msg))) = completed st"
    and "results (settle st (Settle t (Rejected msg))) = results st @ [failure_result t msg]"
    and "history (settle st (Settle t (Rejected msg))) =
           history st @ [Recorded t (failure_result t msg)]"
  using assms by (simp_all add: settle_cases)

lemma settle_not_running: "t \<notin> set (running st) \<Longrightarrow> settle st (Settle t outcome) = st"
  by (simp add: settle_cases)

lemma settle_Caught_frame:
  "queue (settle st (Caught t)) = queue st"
  "running (settle st (Caught t)) = running st"
  "inProgress (settle st (Caught t)) = inProgress st"
  "completed (settle st (Caught t)) = completed st"
  by (simp_all add: settle_def push_result_def)

lemma settle_Caught_fields:
  assumes "t \<in> set (rejected st)"
  shows "rejected (settle st (Caught t)) = remove1 t (rejected st)"
    and "results (settle st (Caught t)) =
           results st @ [failure_result t (''Agent not found: '' @ agentTypeOf t)]"
    and "history (settle st (Caught t)) =
           history st @ [Recorded t (failure_result t (''Agent not found: '' @ agentTypeOf t))]"
  using assms by (simp_all add: settle_def push_result_def)

lemma settle_not_rejected: "t \<notin> set (rejected st) \<Longrightarrow> settle st (Caught t) = st"
  by (simp add: settle_def)

lemma settle_unique_inv:
  assumes "unique_inv st"
  shows "unique_inv (settle st ev)"
proof (cases ev)
  case (Settle t outcome)
  show ?thesis
  proof (cases "t \<in> set (running st)")
    case False
    with assms Settle show ?thesis by (simp add: settle_not_running)
  next
    case True
    from assms have d: "distinct (map task_id (queue st @ running st))"
      and ip: "inProgress st = map task_id (running st)"
      and c: "set (completed st) \<inter> task_id ` set (queue st @ running st) = {}"
      by (simp_all add: unique_inv_def)
    from d have dr: "distinct (map task_id (running st))" by simp
    have m: "set_delete (task_id t) (inProgress st) = map task_id (remove1 t (running st))"
      unfolding ip set_delete_def using map_remove1_distinct [OF dr True] by simp
    from d have inj: "inj_on task_id (set (queue st @ running st))"
      and dd: "distinct (queue st @ running st)" by (simp_all only: distinct_map)
    have ss: "set (queue st @ remove1 t (running st)) \<subseteq> set (queue st @ running st)"
      using set_remove1_subset [of t "running st"] by auto
    from dd have "distinct (queue st @ remove1 t (running st))"
      using set_remove1_subset [of t "running st"] by auto
    moreover from inj ss have "inj_on task_id (set (queue st @ remove1 t (running st)))"
      by (rule inj_on_subset)
    ultimately have d': "distinct (map task_id (queue st @ remove1 t (running st)))"
      by (simp only: distinct_map)
    have n: "task_id t \<notin> task_id ` set (queue st @ remove1 t (running st))"
    proof
      assume "task_id t \<in> task_id ` set (queue st @ remove1 t (running st))"
      then obtain u where u: "u \<in> set (queue st @ remove1 t (running st))"
        and e: "task_id u = task_id t" by (metis imageE)
      from u ss have "u \<in> set (queue st @ running st)" by blast
      moreover from True have "t \<in> set (queue st @ running st)" by simp
      ultimately have "u = t" using inj e by (metis inj_onD)
      moreover from dd True have "t \<notin> set (queue st)" and "t \<notin> set (remove1 t (running st))"
        by auto
      ultimately show False using u by simp
    qed
    from ss have "task_id ` set (queue st @ remove1 t (running st))
                    \<subseteq> task_id ` set (queue st @ running st)"
      by (rule image_mono)
    with c have c': "set (completed st) \<inter> task_id ` set (queue st @ remove1 t (running st)) = {}"
      by blast
    with n have c'': "set (set_add (task_id t) (completed st)) \<inter>
                        task_id ` set (queue st @ remove1 t (running st)) = {}"
      by simp
    show ?thesis
    proof (cases outcome)
      case (Resolved r)
      show ?thesis
        unfolding Settle Resolved unique_inv_def settle_Resolved_fields [OF True]
        using m d' c'' by blast
    next
      case (Rejected msg)
      show ?thesis
        unfolding Settle Rejected unique_inv_def settle_Rejected_fields [OF True]
        using m d' c' by blast
    qed
  qed
next
  case (Caught t)
  with assms show ?thesis by (simp add: unique_inv_def settle_Caught_frame)
qed

lemma reachable_unique_inv:
  assumes "reachable maxC agents tasks st" and "distinct (map task_id tasks)"
  shows "unique_inv st"
  using assms
proof (induction rule: reachable.induct)
  case reach_init
  then show ?case by (simp add: unique_inv_def initial_state_def)
next
  case (reach_round st st')
  then have u: "unique_inv st" by simp
  from loop_body_Continue [OF reach_round.hyps(3)]
    foldl_dispatch_unique_inv [OF u tasksToExecute_unique [OF u]]
  show ?case by simp
next
  case (reach_settle st ev)
  then show ?case by (simp add: settle_unique_inv)
qed

subsection \<open>Order of the history\<close>

lemma recorded_ids_append: "recorded_ids (a @ b) = recorded_ids a \<union> recorded_ids b"
  by (auto simp: recorded_ids_def)

lemma recorded_ids_Recorded: "recorded_ids [Recorded t r] = {task_id t}"
  by (auto simp: recorded_ids_def)

lemma recorded_ids_Dispatched: "recorded_ids [Dispatched t] = {}"
  by (auto simp: recorded_ids_def)

lemma history_ordered_snoc_Recorded:
  assumes "history_ordered h"
  shows "history_ordered (h @ [Recorded t r])"
  unfolding history_ordered_def
proof (intro allI impI)
  fix pre u post
  assume e: "h @ [Recorded t r] = pre @ Dispatched u # post"
  show "set (dependencies u) \<subseteq> recorded_ids pre"
  proof (cases post rule: rev_cases)
    case Nil
    with e show ?thesis by simp
  next
    case (snoc post' x)
    with e have "h = pre @ Dispatched u # post'" by simp
    with assms show ?thesis by (auto simp: history_ordered_def)
  qed
qed

lemma history_ordered_snoc_Dispatched:
  assumes "history_ordered h" and "set (dependencies t) \<subseteq> recorded_ids h"
  shows "history_ordered (h @ [Dispatched t])"
  unfolding history_ordered_def
proof (intro allI impI)
  fix pre u post
  assume e: "h @ [Dispatched t] = pre @ Dispatched u # post"
  show "set (dependencies u) \<subseteq> recorded_ids pre"
  proof (cases post rule: rev_cases)
    case Nil
    with e have "pre = h" and "u = t" by simp_all
    with assms(2) show ?thesis by simp
  next
    case (snoc post' x)
    with e have "h = pre @ Dispatched u # post'" by simp
    with assms(1) show ?thesis by (auto simp: history_ordered_def)
  qed
qed

lemma dispatch_history_inv:
  assumes "history_inv st" and "set (dependencies t) \<subseteq> set (completed st)"
  shows "history_inv (dispatch agents st t)"
proof -
  from assms have sub: "set (completed st) \<subseteq> recorded_ids (history st)"
    and ord: "history_ordered (history st)"
    and deps: "set (dependencies t) \<subseteq> recorded_ids (history st)"
    by (auto simp: history_inv_def)
  have "history_ordered (history st @ [Dispatched t])"
    using ord deps by (rule history_ordered_snoc_Dispatched)
  with sub show ?thesis
    unfolding history_inv_def dispatch_history dispatch_fields(1)
    by (auto simp: recorded_ids_append)
qed

lemma foldl_dispatch_history_inv:
  "history_inv st \<Longrightarrow> \<forall>t \<in> set ts. set (dependencies t) \<subseteq> set (completed st) \<Longrightarrow>
     history_inv (foldl (dispatch agents) st ts)"
proof (induction ts arbitrary: st)
  case Nil
  then show ?case by simp
next
  case (Cons t ts)
  from Cons.prems have "history_inv (dispatch agents st t)"
    by (simp add: dispatch_history_inv)
  moreover from Cons.prems
  have "\<forall>u \<in> set ts. set (dependencies u) \<subseteq> set (completed (dispatch agents st t))"
    by (simp add: dispatch_fields(1))
  ultimately show ?case using Cons.IH by simp
qed

lemma settle_history_inv:
  assumes "history_inv st"
  shows "history_inv (settle st ev)"
proof (cases ev)
  case (Settle t outcome)
  show ?thesis
  proof (cases "t \<in> set (running st)")
    case False
    with assms Settle show ?thesis by (simp add: settle_not_running)
  next
    case True
    from assms have sub: "set (completed st) \<subseteq> recorded_ids (history st)"
      and ord: "history_ordered (history st)"
      by (auto simp: history_inv_def)
    show ?thesis
    proof (cases outcome)
      case (Resolved r)
      show ?thesis
        unfolding Settle Resolved history_inv_def settle_Resolved_fields [OF True]
        using sub history_ordered_snoc_Recorded [OF ord, of t r]
        by (auto simp: recorded_ids_append recorded_ids_Recorded)
    next
      case (Rejected msg)
      show ?thesis
        unfolding Settle Rejected history_inv_def settle_Rejected_fields [OF True]
        using sub history_ordered_snoc_Recorded [OF ord, of t "failure_result t msg"]
        by (auto simp: recorded_ids_append)
    qed
  qed
next
  case (Caught t)
  show ?thesis
  proof (cases "t \<in> set (rejected st)")
    case False
    with assms Caught show ?thesis by (simp add: settle_not_rejected)
  next
    case True
    from assms have sub: "set (completed st) \<subseteq> recorded_ids (history st)"
      and ord: "history_ordered (history st)"
      by (auto simp: history_inv_def)
    show ?thesis
      unfolding Caught history_inv_def settle_Caught_fields [OF True] settle_Caught_frame
      using sub history_ordered_snoc_Recorded [OF ord]
      by (auto simp: recorded_ids_append)
  qed
qed

lemma reachable_history_inv:
  assumes "reachable maxC agents tasks st"
  shows "history_inv st"
  using assms
proof (induction rule: reachable.induct)
  case reach_init
  then show ?case
    by (simp add: history_inv_def initial_state_def history_ordered_def)
next
  case (reach_round st st')
  have "\<forall>t \<in> set (tasksToExecute maxC st). set (dependencies t) \<subseteq> set (completed st)"
  proof
    fix t assume "t \<in> set (tasksToExecute maxC st)"
    with set_tasksToExecute [of maxC st] have "t \<in> set (readyTasks st)" by blast
    then show "set (dependencies t) \<subseteq> set (completed st)" by (simp add: readyTasks_iff)
  qed
  with reach_round.IH have "history_inv (foldl (dispatch agents) st (tasksToExecute maxC st))"
    by (rule foldl_dispatch_history_inv)
  with loop_body_Continue [OF reach_round.hyps(3)] show ?case by simp
next
  case (reach_settle st ev)
  then show ?case by (simp add: settle_history_inv)
qed

subsection \<open>Runs of the loop\<close>

declare run.simps [simp del]

lemma run_Nil:
  "run maxC agents [] st =
     (if \<not> (length (queue st) > 0 \<or> length (inProgress st) > 0) then Some (Returned st)
      else (case loop_body maxC agents st of
              Throw e \<Rightarrow> Some (Threw e st)
            | Break \<Rightarrow> Some (Returned st)
            | Continue st' \<Rightarrow> None))"
  by (subst run.simps) (simp split: round.splits)

lemma run_Cons:
  "run maxC agents (wait # rest) st =
     (if \<not> (length (queue st) > 0 \<or> length (inProgress st) > 0) then Some (Returned st)
      else (case loop_body maxC agents st of
              Throw e \<Rightarrow> Some (Threw e st)
            | Break \<Rightarrow> Some (Returned st)
            | Continue st' \<Rightarrow> run maxC agents rest (after_wait st' (wait st'))))"
  by (subst run.simps) (simp split: round.splits)

lemma loop_body_deadlock:
  assumes "length (queue st) > 0" and "readyTasks st = []" and "inProgress st = []"
  shows "loop_body maxC agents st = Throw deadlock_error"
  using assms by (simp add: loop_body_def tasksToExecute_def slice0_def)

lemma run_deadlock:
  assumes "length (queue st) > 0" and "readyTasks st = []" and "inProgress st = []"
  shows "run maxC agents sched st = Some (Threw deadlock_error st)"
  using assms loop_body_deadlock [OF assms, of maxC agents]
  by (cases sched) (simp_all add: run_Nil run_Cons)

lemma run_Threw:
  "run maxC agents sched st = Some (Threw e st') \<Longrightarrow> e = deadlock_error"
proof (induction sched arbitrary: st)
  case Nil
  then show ?case
    by (auto simp: run_Nil split: if_splits round.splits dest: loop_body_Throw)
next
  case (Cons wait rest)
  then show ?case
    by (auto simp: run_Cons split: if_splits round.splits dest: loop_body_Throw)
qed

subsection \<open>A task that can never complete\<close>

lemma settle_stuck:
  assumes "stuck t b st"
  shows "stuck t b (settle st ev)"
proof (cases ev)
  case (Settle u outcome)
  show ?thesis
  proof (cases "u \<in> set (running st)")
    case False
    with assms Settle show ?thesis by (simp add: settle_not_running)
  next
    case True
    from assms have c: "task_id t \<notin> set (completed st)"
      and q: "task_id t \<notin> task_id ` set (queue st @ running st)"
      and b: "b \<in> set (queue st)" and d: "task_id t \<in> set (dependencies b)"
      by (simp_all add: stuck_def blocked_by_def)
    from True have "task_id u \<in> task_id ` set (queue st @ running st)" by simp
    with q have ne: "task_id u \<noteq> task_id t" by metis
    have ss: "set (queue st @ remove1 u (running st)) \<subseteq> set (queue st @ running st)"
      using set_remove1_subset [of u "running st"] by auto
    then have "task_id ` set (queue st @ remove1 u (running st))
                 \<subseteq> task_id ` set (queue st @ running st)"
      by (rule image_mono)
    with q have q': "task_id t \<notin> task_id ` set (queue st @ remove1 u (running st))"
      by blast
    from c ne have c': "task_id t \<notin> set (set_add (task_id u) (completed st))"
      by simp
    show ?thesis
    proof (cases outcome)
      case (Resolved r)
      show ?thesis
        unfolding Settle Resolved stuck_def blocked_by_def settle_Resolved_fields [OF True]
        using c' q' b d by blast
    next
      case (Rejected msg)
      show ?thesis
        unfolding Settle Rejected stuck_def blocked_by_def settle_Rejected_fields [OF True]
        using c q' b d by blast
    qed
  qed
next
  case (Caught u)
  with assms show ?thesis by (simp add: stuck_def blocked_by_def settle_Caught_frame)
qed

lemma foldl_settle_stuck: "stuck t b st \<Longrightarrow> stuck t b (foldl settle st evs)"
  by (induction evs arbitrary: st) (simp_all add: settle_stuck)

lemma after_wait_stuck: "stuck t b st \<Longrightarrow> stuck t b (after_wait st w)"
  by (simp add: after_wait_def catch_all_def foldl_settle_stuck)

lemma running_dispatch_subset:
  "set (running (dispatch agents st u)) \<subseteq> insert u (set (running st))"
  by (cases "agents (agentTypeOf u)") (auto simp: dispatch_fields)

lemma dispatch_stuck:
  assumes "stuck t b st" and "task_id u \<noteq> task_id t" and "u \<noteq> b"
  shows "stuck t b (dispatch agents st u)"
proof -
  from assms(1) have c: "task_id t \<notin> set (completed st)"
    and q: "task_id t \<notin> task_id ` set (queue st @ running st)"
    and b: "b \<in> set (queue st)" and d: "task_id t \<in> set (dependencies b)"
    by (simp_all add: stuck_def blocked_by_def)
  have "set (queue (dispatch agents st u) @ running (dispatch agents st u))
          \<subseteq> insert u (set (queue st @ running st))"
    using running_dispatch_subset [of agents st u] set_remove1_subset [of u "queue st"]
    by (auto simp: dispatch_fields(2))
  then have "task_id ` set (queue (dispatch agents st u) @ running (dispatch agents st u))
          \<subseteq> task_id ` insert u (set (queue st @ running st))"
    by (rule image_mono)
  with q assms(2) have "task_id t \<notin>
      task_id ` set (queue (dispatch agents st u) @ running (dispatch agents st u))"
    by auto
  moreover from b assms(3) have "b \<in> set (queue (dispatch agents st u))"
    by (simp add: dispatch_fields(2))
  ultimately show ?thesis
    using c d by (simp add: stuck_def blocked_by_def dispatch_fields(1))
qed

lemma foldl_dispatch_stuck:
  "stuck t b st \<Longrightarrow> \<forall>u \<in> set ts. task_id u \<noteq> task_id t \<and> u \<noteq> b \<Longrightarrow>
     stuck t b (foldl (dispatch agents) st ts)"
  by (induction ts arbitrary: st) (simp_all add: dispatch_stuck)

lemma stuck_not_ready:
  assumes "stuck t b st"
  shows "b \<notin> set (readyTasks st)"
  using assms by (auto simp: stuck_def blocked_by_def readyTasks_iff)

lemma loop_body_stuck:
  assumes "stuck t b st" and "loop_body maxC agents st = Continue st'"
  shows "stuck t b st'"
proof -
  have "\<forall>u \<in> set (tasksToExecute maxC st). task_id u \<noteq> task_id t \<and> u \<noteq> b"
  proof
    fix u assume "u \<in> set (tasksToExecute maxC st)"
    with set_tasksToExecute [of maxC st] have r: "u \<in> set (readyTasks st)" by blast
    then have "u \<in> set (queue st)" by (simp add: readyTasks_iff)
    then have "task_id u \<in> task_id ` set (queue st @ running st)" by simp
    with assms(1) have "task_id u \<noteq> task_id t"
      unfolding stuck_def blocked_by_def by metis
    moreover from r stuck_not_ready [OF assms(1)] have "u \<noteq> b" by blast
    ultimately show "task_id u \<noteq> task_id t \<and> u \<noteq> b" ..
  qed
  with assms(1) have "stuck t b (foldl (dispatch agents) st (tasksToExecute maxC st))"
    by (rule foldl_dispatch_stuck)
  with loop_body_Continue [OF assms(2)] show ?thesis by simp
qed

lemma loop_body_not_Break:
  "length (queue st) > 0 \<Longrightarrow> loop_body maxC agents st \<noteq> Break"
  by (simp add: loop_body_def Let_def)

lemma run_stuck:
  "stuck t b st \<Longrightarrow> run maxC agents sched st = Some res \<Longrightarrow>
     \<exists>st'. res = Threw deadlock_error st' \<and> stuck t b st'"
proof (induction sched arbitrary: st)
  case Nil
  from Nil.prems(1) have q: "length (queue st) > 0" by (auto simp: stuck_def)
  with Nil.prems loop_body_not_Break [OF q, of maxC agents] show ?case
    by (auto simp: run_Nil split: round.splits dest: loop_body_Throw)
next
  case (Cons wait rest)
  from Cons.prems(1) have q: "length (queue st) > 0" by (auto simp: stuck_def)
  show ?case
  proof (cases "loop_body maxC agents st")
    case (Throw e)
    with Cons.prems q loop_body_Throw [OF Throw] show ?thesis
      by (auto simp: run_Cons)
  next
    case Break
    with loop_body_not_Break [OF q, of maxC agents] show ?thesis by simp
  next
    case (Continue st1)
    with Cons.prems(2) q
    have r: "run maxC agents rest (after_wait st1 (wait st1)) = Some res"
      by (simp add: run_Cons)
    have "stuck t b (after_wait st1 (wait st1))"
      using loop_body_stuck [OF Cons.prems(1) Continue] by (rule after_wait_stuck)
    from Cons.IH [OF this r] show ?thesis .
  qed
qed

subsection \<open>Termination when every promise settles\<close>

lemma running_settle_all:
  "running (foldl settle st (map (\<lambda>t. Settle t (f t)) (running st))) = []"
proof -
  have "running st = ts \<Longrightarrow> running (foldl settle st (map (\<lambda>t. Settle t (f t)) ts)) = []"
    for ts
  proof (induction ts arbitrary: st)
    case Nil
    then show ?case by simp
  next
    case (Cons t ts)
    then have "t \<in> set (running st)" by simp
    then have "running (settle st (Settle t (f t))) = remove1 t (running st)"
      by (cases "f t") (simp_all add: settle_Resolved_fields settle_Rejected_fields)
    with Cons.prems have "running (settle st (Settle t (f t))) = ts" by simp
    from Cons.IH [OF this] show ?case by simp
  qed
  then show ?thesis by simp
qed

lemma queue_settle [simp]: "queue (settle st ev) = queue st"
proof (cases ev)
  case (Settle t outcome)
  then show ?thesis
    by (cases "t \<in> set (running st)"; cases outcome)
      (simp_all add: settle_Resolved_fields settle_Rejected_fields settle_not_running)
next
  case (Caught t)
  then show ?thesis by (simp add: settle_Caught_frame)
qed

lemma queue_foldl_settle [simp]: "queue (foldl settle st evs) = queue st"
  by (induction evs arbitrary: st) simp_all

lemma queue_after_wait [simp]: "queue (after_wait st w) = queue st"
  by (simp add: after_wait_def catch_all_def)

lemma foldl_settle_unique_inv: "unique_inv st \<Longrightarrow> unique_inv (foldl settle st evs)"
  by (induction evs arbitrary: st) (simp_all add: settle_unique_inv)

lemma after_wait_unique_inv: "unique_inv st \<Longrightarrow> unique_inv (after_wait st w)"
  by (simp add: after_wait_def catch_all_def foldl_settle_unique_inv)

lemma running_foldl_Caught [simp]: "running (foldl settle st (map Caught ts)) = running st"
  by (induction ts arbitrary: st) (simp_all add: settle_Caught_frame)

lemma running_after_settle_all: "running (after_wait st (settle_all f st)) = []"
proof -
  have "running (catch_all st) = running st" by (simp add: catch_all_def)
  with running_settle_all [of "catch_all st" f] show ?thesis
    by (simp add: after_wait_def settle_all_def)
qed

lemma length_queue_dispatch: "length (queue (dispatch agents st u)) \<le> length (queue st)"
  by (simp add: dispatch_fields(2) length_remove1)

lemma length_queue_foldl_dispatch:
  "length (queue (foldl (dispatch agents) st ts)) \<le> length (queue st)"
proof (induction ts arbitrary: st)
  case Nil
  then show ?case by simp
next
  case (Cons u ts)
  have "length (queue (foldl (dispatch agents) (dispatch agents st u) ts))
          \<le> length (queue (dispatch agents st u))"
    by (rule Cons.IH)
  also have "\<dots> \<le> length (queue st)" by (rule length_queue_dispatch)
  finally show ?case by simp
qed

lemma length_queue_foldl_dispatch_less:
  assumes "ts \<noteq> []" and "hd ts \<in> set (queue st)"
  shows "length (queue (foldl (dispatch agents) st ts)) < length (queue st)"
proof -
  from assms(1) obtain u us where ts: "ts = u # us" by (cases ts) auto
  with assms(2) have "u \<in> set (queue st)" by simp
  then have "length (queue (dispatch agents st u)) < length (queue st)"
    by (simp add: dispatch_fields(2) length_remove1) (cases "queue st"; simp)
  moreover have "length (queue (foldl (dispatch agents) (dispatch agents st u) us))
          \<le> length (queue (dispatch agents st u))"
    by (rule length_queue_foldl_dispatch)
  ultimately show ?thesis using ts by simp
qed


lemma loop_body_Continue_nonempty:
  assumes "loop_body maxC agents st = Continue st'" and "inProgress st = []"
  shows "tasksToExecute maxC st \<noteq> []"
  using assms by (auto simp: loop_body_def Let_def split: if_splits)

lemma run_settle_all_deadlock:
  "unique_inv st \<Longrightarrow> stuck t b st \<Longrightarrow>
   length (queue st) + (if inProgress st = [] then 0 else 1) \<le> n \<Longrightarrow>
     \<exists>st'. run maxC agents (replicate n (settle_all f)) st = Some (Threw deadlock_error st')"
proof (induction n arbitrary: st)
  case 0
  then show ?case by (auto simp: stuck_def)
next
  case (Suc n)
  from Suc.prems(2) have q: "length (queue st) > 0" by (auto simp: stuck_def)
  show ?case
  proof (cases "loop_body maxC agents st")
    case (Throw e)
    with q loop_body_Throw [OF Throw] show ?thesis
      by (simp add: run_Cons)
  next
    case Break
    with loop_body_not_Break [OF q, of maxC agents] show ?thesis by simp
  next
    case (Continue st1)
    let ?ts = "tasksToExecute maxC st"
    let ?st2 = "after_wait st1 (settle_all f st1)"
    have st1: "st1 = foldl (dispatch agents) st ?ts"
      using Continue by (rule loop_body_Continue)
    have u1: "unique_inv st1"
      unfolding st1
      using Suc.prems(1) tasksToExecute_unique [OF Suc.prems(1)]
      by (rule foldl_dispatch_unique_inv)
    then have u2: "unique_inv ?st2" by (rule after_wait_unique_inv)
    have "running ?st2 = []"
      by (rule running_after_settle_all)
    with u2 have ip2: "inProgress ?st2 = []" by (simp add: unique_inv_def)
    have s2: "stuck t b ?st2"
      using loop_body_stuck [OF Suc.prems(2) Continue] by (rule after_wait_stuck)
    have "length (queue st1) \<le> n"
    proof (cases "inProgress st = []")
      case True
      with Continue have ne: "?ts \<noteq> []" by (rule loop_body_Continue_nonempty)
      then have "hd ?ts \<in> set ?ts" by simp
      with tasksToExecute_unique(2) [OF Suc.prems(1), of maxC]
      have "hd ?ts \<in> set (queue st)" by blast
      with ne have "length (queue st1) < length (queue st)"
        unfolding st1 by (rule length_queue_foldl_dispatch_less)
      with Suc.prems(3) True show ?thesis by simp
    next
      case False
      have "length (queue st1) \<le> length (queue st)"
        unfolding st1 by (rule length_queue_foldl_dispatch)
      with Suc.prems(3) False show ?thesis by simp
    qed
    with ip2 have "length (queue ?st2) + (if inProgress ?st2 = [] then 0 else 1) \<le> n"
      by simp
    from Suc.IH [OF u2 s2 this] Continue q show ?thesis
      by (simp add: run_Cons)
  qed
qed

lemma rejected_stuck:
  assumes "unique_inv st" and "t \<in> set (running st)" and "b \<in> set (queue st)"
    and "task_id t \<in> set (dependencies b)"
  shows "stuck t b (settle st (Settle t (Rejected msg)))"
proof -
  let ?st' = "settle st (Settle t (Rejected msg))"
  from assms(1) have d: "distinct (map task_id (queue st @ running st))"
    and c: "set (completed st) \<inter> task_id ` set (queue st @ running st) = {}"
    by (simp_all add: unique_inv_def)
  from assms(2) have "task_id t \<in> task_id ` set (queue st @ running st)" by simp
  with c have nc: "task_id t \<notin> set (completed st)" by blast
  from d have inj: "inj_on task_id (set (queue st @ running st))"
    and dd: "distinct (queue st @ running st)" by (simp_all only: distinct_map)
  have ss: "set (queue st @ remove1 t (running st)) \<subseteq> set (queue st @ running st)"
    using set_remove1_subset [of t "running st"] by auto
  have n: "task_id t \<notin> task_id ` set (queue st @ remove1 t (running st))"
  proof
    assume "task_id t \<in> task_id ` set (queue st @ remove1 t (running st))"
    then obtain u where u: "u \<in> set (queue st @ remove1 t (running st))"
      and e: "task_id u = task_id t" by (metis imageE)
    from u ss have "u \<in> set (queue st @ running st)" by blast
    moreover from assms(2) have "t \<in> set (queue st @ running st)" by simp
    ultimately have "u = t" using inj e by (metis inj_onD)
    moreover from dd assms(2) have "t \<notin> set (queue st)" and "t \<notin> set (remove1 t (running st))"
      by auto
    ultimately show False using u by simp
  qed
  show ?thesis
    unfolding stuck_def blocked_by_def settle_Rejected_fields [OF assms(2)]
    using nc n assms(3,4) by blast
qed

subsection \<open>Results only grow\<close>

lemma results_dispatch: "\<exists>rs. results (dispatch agents st u) = results st @ rs"
  by (simp add: dispatch_fields)

lemma results_foldl_dispatch: "\<exists>rs. results (foldl (dispatch agents) st ts) = results st @ rs"
proof (induction ts arbitrary: st)
  case Nil
  then show ?case by simp
next
  case (Cons u ts)
  from results_dispatch [of agents st u] obtain rs1
    where 1: "results (dispatch agents st u) = results st @ rs1" ..
  from Cons.IH [of "dispatch agents st u"] obtain rs2
    where "results (foldl (dispatch agents) (dispatch agents st u) ts)
             = results (dispatch agents st u) @ rs2" ..
  with 1 show ?case by simp
qed

lemma results_settle: "\<exists>rs. results (settle st ev) = results st @ rs"
proof (cases ev)
  case (Settle t outcome)
  then show ?thesis
    by (cases "t \<in> set (running st)"; cases outcome)
      (simp_all add: settle_Resolved_fields settle_Rejected_fields settle_not_running)
next
  case (Caught t)
  then show ?thesis
    by (cases "t \<in> set (rejected st)") (simp_all add: settle_Caught_fields settle_not_rejected)
qed

lemma results_foldl_settle: "\<exists>rs. results (foldl settle st evs) = results st @ rs"
proof (induction evs arbitrary: st)
  case Nil
  then show ?case by simp
next
  case (Cons ev evs)
  from results_settle [of st ev] obtain rs1
    where 1: "results (settle st ev) = results st @ rs1" ..
  from Cons.IH [of "settle st ev"] obtain rs2
    where "results (foldl settle (settle st ev) evs) = results (settle st ev) @ rs2" ..
  with 1 show ?case by simp
qed

lemma results_after_wait: "\<exists>rs. results (after_wait st w) = results st @ rs"
proof -
  from results_foldl_settle [of st "fst w"] obtain rs1
    where 1: "results (foldl settle st (fst w)) = results st @ rs1" ..
  from results_foldl_settle [of "foldl settle st (fst w)" "map Caught (rejected (foldl settle st (fst w)))"]
  obtain rs2 where 2: "results (catch_all (foldl settle st (fst w)))
                         = results (foldl settle st (fst w)) @ rs2"
    unfolding catch_all_def ..
  from results_foldl_settle [of "catch_all (foldl settle st (fst w))" "snd w"] obtain rs3
    where "results (after_wait st w) = results (catch_all (foldl settle st (fst w))) @ rs3"
    unfolding after_wait_def ..
  with 1 2 show ?thesis by simp
qed

lemma run_results:
  "run maxC agents sched st = Some res \<Longrightarrow>
     \<exists>rs. results (final_state res) = results st @ rs"
proof (induction sched arbitrary: st)
  case Nil
  then show ?case
    by (auto simp: run_Nil final_state_def split: if_splits round.splits)
next
  case (Cons wait rest)
  show ?case
  proof (cases "\<not> (length (queue st) > 0 \<or> length (inProgress st) > 0)")
    case True
    with Cons.prems show ?thesis by (auto simp: run_Cons final_state_def)
  next
    case False
    show ?thesis
    proof (cases "loop_body maxC agents st")
      case (Throw e)
      with False Cons.prems show ?thesis by (auto simp: run_Cons final_state_def)
    next
      case Break
      with False Cons.prems show ?thesis by (auto simp: run_Cons final_state_def)
    next
      case (Continue st1)
      with False Cons.prems
      have "run maxC agents rest (after_wait st1 (wait st1)) = Some res"
        by (simp add: run_Cons)
      from Cons.IH [OF this] obtain rs3
        where 3: "results (final_state res) = results (after_wait st1 (wait st1)) @ rs3" ..
      from results_after_wait [of st1 "wait st1"] obtain rs2
        where 2: "results (after_wait st1 (wait st1)) = results st1 @ rs2" ..
      from loop_body_Continue [OF Continue] results_foldl_dispatch [of agents st]
      obtain rs1 where 1: "results st1 = results st @ rs1" by auto
      from 1 2 3 show ?thesis by simp
    qed
  qed
qed

lemma Dispatched_dispatch: "Dispatched u \<in> set (history (dispatch agents st u))"
  by (simp add: dispatch_history)

lemma history_dispatch_mono: "set (history st) \<subseteq> set (history (dispatch agents st u))"
  by (auto simp: dispatch_history)

lemma history_foldl_dispatch_mono:
  "set (history st) \<subseteq> set (history (foldl (dispatch agents) st ts))"
proof (induction ts arbitrary: st)
  case Nil
  then show ?case by simp
next
  case (Cons u ts)
  from history_dispatch_mono [of st agents u] Cons.IH [of "dispatch agents st u"]
  show ?case by auto
qed

lemma Dispatched_foldl_dispatch:
  "u \<in> set ts \<Longrightarrow> Dispatched u \<in> set (history (foldl (dispatch agents) st ts))"
proof (induction ts arbitrary: st)
  case Nil
  then show ?case by simp
next
  case (Cons v ts)
  show ?case
  proof (cases "u = v")
    case True
    with Dispatched_dispatch [of v agents st]
      history_foldl_dispatch_mono [of "dispatch agents st v" agents ts]
    show ?thesis by auto
  next
    case False
    with Cons show ?thesis by simp
  qed
qed

subsection \<open>The catch handler of a task without an agent\<close>

lemma set_results_settle: "set (results st) \<subseteq> set (results (settle st ev))"
  using results_settle [of st ev] by auto

lemma set_results_foldl_settle: "set (results st) \<subseteq> set (results (foldl settle st evs))"
  using results_foldl_settle [of st evs] by auto

lemma rejected_dispatch_mono: "set (rejected st) \<subseteq> set (rejected (dispatch agents st u))"
  by (cases "agents (agentTypeOf u)") (auto simp: dispatch_fields)

lemma rejected_foldl_dispatch_mono:
  "set (rejected st) \<subseteq> set (rejected (foldl (dispatch agents) st ts))"
proof (induction ts arbitrary: st)
  case Nil
  then show ?case by simp
next
  case (Cons u ts)
  from rejected_dispatch_mono [of st agents u] Cons.IH [of "dispatch agents st u"]
  show ?case by auto
qed

lemma rejected_foldl_dispatch:
  "t \<in> set ts \<Longrightarrow> agents (agentTypeOf t) = None \<Longrightarrow>
     t \<in> set (rejected (foldl (dispatch agents) st ts))"
proof (induction ts arbitrary: st)
  case Nil
  then show ?case by simp
next
  case (Cons u ts)
  show ?case
  proof (cases "t = u")
    case True
    with Cons.prems(2) have "t \<in> set (rejected (dispatch agents st u))"
      by (simp add: dispatch_fields)
    with rejected_foldl_dispatch_mono [of "dispatch agents st u" agents ts]
    show ?thesis by auto
  next
    case False
    with Cons show ?thesis by simp
  qed
qed

lemma settle_pending:
  assumes "t \<in> set (rejected st) \<or>
           failure_result t (''Agent not found: '' @ agentTypeOf t) \<in> set (results st)"
  shows "t \<in> set (rejected (settle st ev)) \<or>
         failure_result t (''Agent not found: '' @ agentTypeOf t) \<in> set (results (settle st ev))"
proof (cases "t \<in> set (rejected st)")
  case False
  with assms set_results_settle [of st ev] show ?thesis by blast
next
  case True
  show ?thesis
  proof (cases ev)
    case (Settle u outcome)
    have "rejected (settle st (Settle u outcome)) = rejected st"
      by (cases "u \<in> set (running st)"; cases outcome)
        (simp_all add: settle_def push_result_def)
    with True Settle show ?thesis by simp
  next
    case (Caught u)
    show ?thesis
    proof (cases "u = t")
      case True
      with \<open>t \<in> set (rejected st)\<close> Caught show ?thesis
        by (simp add: settle_Caught_fields)
    next
      case False
      with \<open>t \<in> set (rejected st)\<close> have "t \<in> set (rejected (settle st (Caught u)))"
        by (cases "u \<in> set (rejected st)")
          (simp_all add: settle_Caught_fields settle_not_rejected)
      with Caught show ?thesis by simp
    qed
  qed
qed

lemma foldl_settle_pending:
  "t \<in> set (rejected st) \<or>
     failure_result t (''Agent not found: '' @ agentTypeOf t) \<in> set (results st) \<Longrightarrow>
   t \<in> set (rejected (foldl settle st evs)) \<or>
     failure_result t (''Agent not found: '' @ agentTypeOf t) \<in> set (results (foldl settle st evs))"
proof (induction evs arbitrary: st)
  case Nil
  then show ?case by (simp only: foldl_Nil)
next
  case (Cons ev evs)
  from Cons.prems have "t \<in> set (rejected (settle st ev)) \<or>
      failure_result t (''Agent not found: '' @ agentTypeOf t) \<in> set (results (settle st ev))"
    by (rule settle_pending)
  then show ?case unfolding foldl_Cons by (rule Cons.IH)
qed

lemma foldl_Caught_results:
  "t \<in> set ts \<Longrightarrow>
   t \<in> set (rejected st) \<or>
     failure_result t (''Agent not found: '' @ agentTypeOf t) \<in> set (results st) \<Longrightarrow>
   failure_result t (''Agent not found: '' @ agentTypeOf t)
     \<in> set (results (foldl settle st (map Caught ts)))"
proof (induction ts arbitrary: st)
  case Nil
  then show ?case by simp
next
  case (Cons u ts)
  let ?r = "failure_result t (''Agent not found: '' @ agentTypeOf t)"
  show ?case
  proof (cases "t = u")
    case True
    have "?r \<in> set (results (settle st (Caught t)))"
    proof (cases "t \<in> set (rejected st)")
      case True
      then show ?thesis by (simp add: settle_Caught_fields)
    next
      case False
      with Cons.prems(2) show ?thesis by (simp add: settle_not_rejected)
    qed
    with set_results_foldl_settle [of "settle st (Caught t)" "map Caught ts"] True
    show ?thesis by auto
  next
    case False
    with Cons.prems(1) have "t \<in> set ts" by simp
    moreover from Cons.prems(2) have "t \<in> set (rejected (settle st (Caught u))) \<or>
        ?r \<in> set (results (settle st (Caught u)))"
      by (rule settle_pending)
    ultimately show ?thesis using Cons.IH by simp
  qed
qed

lemma catch_all_results:
  assumes "t \<in> set (rejected st) \<or>
           failure_result t (''Agent not found: '' @ agentTypeOf t) \<in> set (results st)"
  shows "failure_result t (''Agent not found: '' @ agentTypeOf t)
           \<in> set (results (catch_all st))"
proof (cases "t \<in> set (rejected st)")
  case True
  then show ?thesis unfolding catch_all_def using assms by (rule foldl_Caught_results)
next
  case False
  with assms set_results_foldl_settle [of st "map Caught (rejected st)"] show ?thesis
    unfolding catch_all_def by blast
qed

lemma after_wait_results:
  assumes "t \<in> set (rejected st)"
  shows "failure_result t (''Agent not found: '' @ agentTypeOf t)
           \<in> set (results (after_wait st w))"
proof -
  from assms have "t \<in> set (rejected (foldl settle st (fst w))) \<or>
      failure_result t (''Agent not found: '' @ agentTypeOf t)
        \<in> set (results (foldl settle st (fst w)))"
    by (intro foldl_settle_pending) simp
  then have "failure_result t (''Agent not found: '' @ agentTypeOf t)
               \<in> set (results (catch_all (foldl settle st (fst w))))"
    by (rule catch_all_results)
  with set_results_foldl_settle [of "catch_all (foldl settle st (fst w))" "snd w"]
  show ?thesis unfolding after_wait_def by blast
qed

lemma history_settle: "set (history st) \<subseteq> set (history (settle st ev))"
proof (cases ev)
  case (Settle t outcome)
  then show ?thesis
    by (cases "t \<in> set (running st)"; cases outcome)
      (auto simp: settle_Resolved_fields settle_Rejected_fields settle_not_running)
next
  case (Caught t)
  then show ?thesis
    by (cases "t \<in> set (rejected st)") (auto simp: settle_Caught_fields settle_not_rejected)
qed

lemma history_foldl_settle: "set (history st) \<subseteq> set (history (foldl settle st evs))"
proof (induction evs arbitrary: st)
  case Nil
  then show ?case by simp
next
  case (Cons ev evs)
  from history_settle [of st ev] Cons.IH [of "settle st ev"] show ?case by auto
qed

lemma history_after_wait: "set (history st) \<subseteq> set (history (after_wait st w))"
proof -
  have "set (history st) \<subseteq> set (history (foldl settle st (fst w)))"
    by (rule history_foldl_settle)
  also have "\<dots> \<subseteq> set (history (catch_all (foldl settle st (fst w))))"
    unfolding catch_all_def by (rule history_foldl_settle)
  also have "\<dots> \<subseteq> set (history (after_wait st w))"
    unfolding after_wait_def by (rule history_foldl_settle)
  finally show ?thesis .
qed

lemma run_history:
  "run maxC agents sched st = Some res \<Longrightarrow> set (history st) \<subseteq> set (history (final_state res))"
proof (induction sched arbitrary: st)
  case Nil
  then show ?case
    by (auto simp: run_Nil final_state_def split: if_splits round.splits)
next
  case (Cons wait rest)
  show ?case
  proof (cases "\<not> (length (queue st) > 0 \<or> length (inProgress st) > 0)")
    case True
    with Cons.prems show ?thesis by (auto simp: run_Cons final_state_def)
  next
    case False
    show ?thesis
    proof (cases "loop_body maxC agents st")
      case (Throw e)
      with False Cons.prems show ?thesis by (auto simp: run_Cons final_state_def)
    next
      case Break
      with False Cons.prems show ?thesis by (auto simp: run_Cons final_state_def)
    next
      case (Continue st1)
      with False Cons.prems
      have "run maxC agents rest (after_wait st1 (wait st1)) = Some res"
        by (simp add: run_Cons)
      from Cons.IH [OF this]
      have 3: "set (history (after_wait st1 (wait st1))) \<subseteq> set (history (final_state res))" .
      have 2: "set (history st1) \<subseteq> set (history (after_wait st1 (wait st1)))"
        by (rule history_after_wait)
      from loop_body_Continue [OF Continue] history_foldl_dispatch_mono [of st agents]
      have 1: "set (history st) \<subseteq> set (history st1)" by simp
      from 1 2 3 show ?thesis by blast
    qed
  qed
qed

lemma run_missing_role:
  assumes "agents (agentTypeOf t) = None"
    and "t \<in> set (tasksToExecute maxC st)"
    and "run maxC agents sched st = Some res"
  shows "failure_result t (''Agent not found: '' @ agentTypeOf t)
           \<in> set (results (final_state res))"
    and "\<forall>u \<in> set (tasksToExecute maxC st). Dispatched u \<in> set (history (final_state res))"
proof -
  let ?ts = "tasksToExecute maxC st"
  let ?st1 = "foldl (dispatch agents) st ?ts"
  from assms(2) have ne: "?ts \<noteq> []" by auto
  from assms(2) set_tasksToExecute [of maxC st] have "t \<in> set (queue st)"
    by (auto simp: readyTasks_iff)
  then have q: "length (queue st) > 0" by (cases "queue st") auto
  from ne have lb: "loop_body maxC agents st = Continue ?st1"
    by (simp add: loop_body_def Let_def)
  from assms(3) q lb obtain wait rest where sched: "sched = wait # rest"
    and r: "run maxC agents rest (after_wait ?st1 (wait ?st1)) = Some res"
    by (cases sched) (auto simp: run_Nil run_Cons)
  have "t \<in> set (rejected ?st1)"
    using assms(2,1) by (rule rejected_foldl_dispatch)
  then have "failure_result t (''Agent not found: '' @ agentTypeOf t)
               \<in> set (results (after_wait ?st1 (wait ?st1)))"
    by (rule after_wait_results)
  moreover from run_results [OF r]
  have "set (results (after_wait ?st1 (wait ?st1))) \<subseteq> set (results (final_state res))"
    by auto
  ultimately show "failure_result t (''Agent not found: '' @ agentTypeOf t)
           \<in> set (results (final_state res))" by blast
  have "Dispatched u \<in> set (history (final_state res))" if "u \<in> set ?ts" for u
  proof -
    from that have "Dispatched u \<in> set (history ?st1)" by (rule Dispatched_foldl_dispatch)
    with history_after_wait [of ?st1 "wait ?st1"] run_history [OF r] show ?thesis by blast
  qed
  then show "\<forall>u \<in> set ?ts. Dispatched u \<in> set (history (final_state res))" by blast
qed

section \<open>Properties of the executor\<close>

text \<open>
  Claim C7. With a positive \<^verbatim>\<open>maxConcurrency\<close>, in every state of the control loop the
  size of \<^verbatim>\<open>inProgress\<close> is at most \<^verbatim>\<open>maxConcurrency\<close>, and the round that starts from the
  state dispatches at most \<^verbatim>\<open>maxConcurrency\<close> minus that size new tasks. \<^verbatim>\<open>inProgress\<close> is
  a set of ids: when the ids of the batch are distinct, as the data model has them, it holds
  exactly the ids of the tasks that were dispatched and have not finished, so their number
  is at most \<^verbatim>\<open>maxConcurrency\<close>.
\<close>

theorem concurrency_ceiling:
  assumes "0 < maxConcurrency" and "reachable maxConcurrency agents tasks st"
  shows "int (length (inProgress st)) \<le> maxConcurrency
    \<and> int (length (tasksToExecute maxConcurrency st))
        \<le> maxConcurrency - int (length (inProgress st))
    \<and> (distinct (map task_id tasks) \<longrightarrow>
         inProgress st = map task_id (running st) \<and>
         int (length (running st)) \<le> maxConcurrency)"
proof -
  from assms have le: "int (length (inProgress st)) \<le> maxConcurrency"
    by (simp add: reachable_inProgress_le)
  then have "int (length (tasksToExecute maxConcurrency st))
               \<le> maxConcurrency - int (length (inProgress st))"
    by (simp add: tasksToExecute_def length_slice0)
  moreover have "inProgress st = map task_id (running st) \<and>
                 int (length (running st)) \<le> maxConcurrency"
    if "distinct (map task_id tasks)"
  proof -
    from reachable_unique_inv [OF assms(2) that]
    have e: "inProgress st = map task_id (running st)" by (simp add: unique_inv_def)
    then have "length (inProgress st) = length (running st)" by simp
    with le e show ?thesis by simp
  qed
  ultimately show ?thesis using le by blast
qed

lemma three_round1_reachable: "reachable 2 codegen_only three_tasks three_round1"
proof -
  have "loop_body 2 codegen_only (initial_state three_tasks) = Continue three_round1"
    by code_simp
  moreover have "length (queue (initial_state three_tasks)) > 0 \<or>
                 length (inProgress (initial_state three_tasks)) > 0"
    by code_simp
  ultimately show ?thesis
    using reach_round [OF reach_init] by blast
qed

theorem concurrency_ceiling_witness:
  "reachable 2 codegen_only three_tasks three_round1
   \<and> distinct (map task_id three_tasks)
   \<and> length (running three_round1) = 2
   \<and> tasksToExecute 2 three_round1 = []
   \<and> int (length (inProgress three_round1)) \<le> 2
   \<and> int (length (running three_round1)) \<le> 2"
proof -
  have d: "distinct (map task_id three_tasks)" by code_simp
  have l: "length (running three_round1) = 2" by code_simp
  have t: "tasksToExecute 2 three_round1 = []" by code_simp
  have "(0::int) < 2" by simp
  from concurrency_ceiling [OF this three_round1_reachable] d l t three_round1_reachable
  show ?thesis by simp
qed

text \<open>
  Claim C6. A task of the queue is ready exactly when each of its dependencies is in
  \<^verbatim>\<open>completed\<close>, and only ready tasks are dispatched; a running task enters \<^verbatim>\<open>completed\<close>
  when its executor resolves, whatever the \<^verbatim>\<open>success\<close> flag of the result; and in every
  state of the control loop, for every value of \<^verbatim>\<open>maxConcurrency\<close>, each call of
  \<^verbatim>\<open>executeTask\<close> for a task B is preceded in the history by the push of a result for each
  dependency A of B.
\<close>

theorem dependency_ordering:
  assumes "reachable maxConcurrency agents tasks st"
  shows "(\<forall>t. t \<in> set (readyTasks st) \<longleftrightarrow>
              t \<in> set (queue st) \<and> set (dependencies t) \<subseteq> set (completed st))
    \<and> set (tasksToExecute maxConcurrency st) \<subseteq> set (readyTasks st)
    \<and> (\<forall>t r. t \<in> set (running st) \<longrightarrow>
              task_id t \<in> set (completed (settle st (Settle t (Resolved r)))))
    \<and> (\<forall>pre b post a. history st = pre @ Dispatched b # post \<longrightarrow> a \<in> set (dependencies b) \<longrightarrow>
              (\<exists>ta r. Recorded ta r \<in> set pre \<and> task_id ta = a))"
proof -
  have "history_ordered (history st)"
    using reachable_history_inv [OF assms] by (simp add: history_inv_def)
  then have "\<exists>ta r. Recorded ta r \<in> set pre \<and> task_id ta = a"
    if "history st = pre @ Dispatched b # post" and "a \<in> set (dependencies b)"
    for pre b post a
    using that unfolding history_ordered_def recorded_ids_def by blast
  moreover have "task_id t \<in> set (completed (settle st (Settle t (Resolved r))))"
    if "t \<in> set (running st)" for t r
    using that by (simp add: settle_Resolved_fields)
  ultimately show ?thesis
    using set_tasksToExecute [of maxConcurrency st] readyTasks_iff [of _ st] by blast
qed

lemma chain_round2_reachable: "reachable 1 codegen_only chain_tasks chain_round2"
proof -
  have 1: "loop_body 1 codegen_only (initial_state chain_tasks) = Continue chain_round1"
    by code_simp
  have c1: "length (queue (initial_state chain_tasks)) > 0 \<or>
            length (inProgress (initial_state chain_tasks)) > 0"
    by code_simp
  have 2: "settle chain_round1 (Settle (mkTask ''A'' [] 1) (Resolved (agent_result False ''A'')))
             = chain_settled"
    by code_simp
  have 3: "loop_body 1 codegen_only chain_settled = Continue chain_round2"
    by code_simp
  have c3: "length (queue chain_settled) > 0 \<or> length (inProgress chain_settled) > 0"
    by code_simp
  have "reachable 1 codegen_only chain_tasks chain_round1"
    using reach_round [OF reach_init c1 1] .
  then have "reachable 1 codegen_only chain_tasks chain_settled"
    using reach_settle [of 1 codegen_only chain_tasks chain_round1] 2 by metis
  then show ?thesis
    using reach_round [OF _ c3 3] by blast
qed

theorem dependency_ordering_witness:
  "reachable 1 codegen_only chain_tasks chain_round2
   \<and> history chain_round2 =
       [Dispatched (mkTask ''A'' [] 1), Recorded (mkTask ''A'' [] 1) (agent_result False ''A'')]
         @ Dispatched (mkTask ''B'' [''A''] 1) # []
   \<and> ''A'' \<in> set (dependencies (mkTask ''B'' [''A''] 1))
   \<and> (\<exists>ta r. Recorded ta r \<in> set [Dispatched (mkTask ''A'' [] 1),
                   Recorded (mkTask ''A'' [] 1) (agent_result False ''A'')] \<and> task_id ta = ''A'')"
proof -
  have h: "history chain_round2 =
       [Dispatched (mkTask ''A'' [] 1), Recorded (mkTask ''A'' [] 1) (agent_result False ''A'')]
         @ Dispatched (mkTask ''B'' [''A''] 1) # []"
    by code_simp
  have a: "''A'' \<in> set (dependencies (mkTask ''B'' [''A''] 1))"
    by code_simp
  from dependency_ordering [OF chain_round2_reachable] h a chain_round2_reachable
  show ?thesis by blast
qed

text \<open>
  Claim C4, as amended. In a state where the queue is not empty, no task of the queue is
  ready and nothing is in progress, the loop throws the error
  \<^verbatim>\<open>Circular dependency or blocked tasks detected\<close>; the promise of \<^verbatim>\<open>executeParallel\<close> is
  rejected with that error alone, whatever results had been collected.
\<close>

theorem deadlock_rejects_without_results:
  assumes "length (queue st) > 0" and "readyTasks st = []" and "inProgress st = []"
  shows "loop_body maxConcurrency agents st = Throw deadlock_error
    \<and> (\<forall>rs. map_option promise_of (run maxConcurrency agents sched (st\<lparr>results := rs\<rparr>))
             = Some (Inl deadlock_error))"
proof -
  have "run maxConcurrency agents sched (st\<lparr>results := rs\<rparr>)
          = Some (Threw deadlock_error (st\<lparr>results := rs\<rparr>))" for rs
    using assms by (intro run_deadlock) (simp_all add: readyTasks_def)
  then show ?thesis
    using loop_body_deadlock [OF assms] by (simp add: promise_of_def)
qed

theorem deadlock_rejects_without_results_witness:
  "length (queue blocked_final) > 0 \<and> readyTasks blocked_final = []
   \<and> inProgress blocked_final = []
   \<and> loop_body 4 codegen_only blocked_final = Throw deadlock_error
   \<and> map_option promise_of (run 4 codegen_only [] (blocked_final\<lparr>results := []\<rparr>))
       = Some (Inl deadlock_error)"
proof -
  have 1: "length (queue blocked_final) > 0" by code_simp
  have 2: "readyTasks blocked_final = []" by code_simp
  have 3: "inProgress blocked_final = []" by code_simp
  from deadlock_rejects_without_results [OF 1 2 3, of 4 codegen_only "[]"] 1 2 3
  show ?thesis by blast
qed

text \<open>
  Claim C4 as stated fails: two runs that end in the deadlock with different results
  collected give the caller the same rejection, which carries no result.
\<close>

theorem deadlock_partial_results_counterexample:
  "executeParallel (resolve_A True) blocked_tasks codegen_only 4 = Some (Inl deadlock_error)
   \<and> map_option (results \<circ> final_state)
         (run 4 codegen_only (resolve_A True) (initial_state blocked_tasks))
       = Some [agent_result True ''A'']
   \<and> executeParallel (resolve_A False) blocked_tasks codegen_only 4 = Some (Inl deadlock_error)
   \<and> map_option (results \<circ> final_state)
         (run 4 codegen_only (resolve_A False) (initial_state blocked_tasks))
       = Some [agent_result False ''A'']"
  by code_simp

text \<open>
  The order of the results of one round, for a task with an agent dispatched ahead of a
  task without one: an executor that resolves at once pushes its result before the
  \<^verbatim>\<open>catch\<close> handler runs, one that waits for the event loop pushes it after.
\<close>

lemma catch_handler_order:
  "executeParallel resolve_now ghost_last codegen_only 2
     = Some (Inr [agent_result True ''B'',
                  \<lparr>success = False, result_taskId = ''A'', agentName = ''ghost'',
                    error_message = Some ''Agent not found: ghost''\<rparr>])
   \<and> executeParallel resolve_all ghost_last codegen_only 2
     = Some (Inr [\<lparr>success = False, result_taskId = ''A'', agentName = ''ghost'',
                    error_message = Some ''Agent not found: ghost''\<rparr>,
                  agent_result True ''B''])"
  by code_simp

text \<open>
  Claim C5, as amended. When the role of a task chosen for a round has no agent, the run
  is not aborted and no error of its own is raised: \<^verbatim>\<open>executeTask\<close> rejects before the
  task enters \<^verbatim>\<open>inProgress\<close>, every task chosen for the round is still dispatched, and the
  \<^verbatim>\<open>catch\<close> handler pushes a failed result for the task, with the id of the task and the
  message \<^verbatim>\<open>Agent not found\<close> followed by the role. The only error a run can end with is
  the deadlock error, and then the caller gets the error alone; when the run returns, the
  caller gets the results collected before and the failed result.
\<close>

theorem missing_role_is_recorded_not_fatal:
  assumes "agents (agentTypeOf t) = None"
    and "t \<in> set (tasksToExecute maxConcurrency st)"
    and "run maxConcurrency agents sched st = Some res"
  shows "(\<forall>s. inProgress (dispatch agents s t) = inProgress s \<and>
             completed (dispatch agents s t) = completed s \<and>
             results (dispatch agents s t) = results s)
    \<and> (\<forall>u \<in> set (tasksToExecute maxConcurrency st).
          Dispatched u \<in> set (history (final_state res)))
    \<and> \<lparr>success = False, result_taskId = task_id t,
         agentName = (case assignedAgent t of None \<Rightarrow> ''unknown'' | Some a \<Rightarrow> a),
         error_message =
           Some (''Agent not found: '' @
                 (case assignedAgent t of None \<Rightarrow> ''codegen'' | Some a \<Rightarrow> a))\<rparr>
        \<in> set (results (final_state res))
    \<and> (\<exists>rs. results (final_state res) = results st @ rs)
    \<and> (case res of
          Returned st' \<Rightarrow> promise_of res = Inr (results (final_state res))
        | Threw e st' \<Rightarrow> e = deadlock_error \<and> promise_of res = Inl deadlock_error)"
proof -
  have 1: "inProgress (dispatch agents s t) = inProgress s \<and>
           completed (dispatch agents s t) = completed s \<and>
           results (dispatch agents s t) = results s" for s
    using assms(1) by (simp add: dispatch_fields)
  note m = run_missing_role [OF assms]
  have e: "failure_result t (''Agent not found: '' @ agentTypeOf t) =
      \<lparr>success = False, result_taskId = task_id t,
         agentName = (case assignedAgent t of None \<Rightarrow> ''unknown'' | Some a \<Rightarrow> a),
         error_message =
           Some (''Agent not found: '' @
                 (case assignedAgent t of None \<Rightarrow> ''codegen'' | Some a \<Rightarrow> a))\<rparr>"
    by (simp add: failure_result_def agentTypeOf_def)
  have 5: "(case res of
          Returned st' \<Rightarrow> promise_of res = Inr (results (final_state res))
        | Threw e st' \<Rightarrow> e = deadlock_error \<and> promise_of res = Inl deadlock_error)"
    using run_Threw [of maxConcurrency agents sched st]  assms(3)
    by (cases res) (auto simp: promise_of_def final_state_def)
  from 1 m(2) m(1) [unfolded e] run_results [OF assms(3)] 5 show ?thesis by blast
qed

theorem missing_role_is_recorded_not_fatal_witness:
  "codegen_only (agentTypeOf ghost_A) = None
   \<and> ghost_A \<in> set (tasksToExecute 1 (initial_state ghost_tasks))
   \<and> map_option promise_of (run 1 codegen_only resolve_all (initial_state ghost_tasks))
       = Some (Inr [\<lparr>success = False, result_taskId = ''A'', agentName = ''ghost'',
                      error_message = Some ''Agent not found: ghost''\<rparr>,
                    agent_result True ''B''])
   \<and> (\<exists>res. run 1 codegen_only resolve_all (initial_state ghost_tasks) = Some res \<and>
         \<lparr>success = False, result_taskId = task_id ghost_A,
          agentName = (case assignedAgent ghost_A of None \<Rightarrow> ''unknown'' | Some a \<Rightarrow> a),
          error_message =
            Some (''Agent not found: '' @
                  (case assignedAgent ghost_A of None \<Rightarrow> ''codegen'' | Some a \<Rightarrow> a))\<rparr>
         \<in> set (results (final_state res)))"
proof -
  have a: "codegen_only (agentTypeOf ghost_A) = None" by code_simp
  have b: "ghost_A \<in> set (tasksToExecute 1 (initial_state ghost_tasks))" by code_simp
  have c: "map_option promise_of (run 1 codegen_only resolve_all (initial_state ghost_tasks))
       = Some (Inr [\<lparr>success = False, result_taskId = ''A'', agentName = ''ghost'',
                      error_message = Some ''Agent not found: ghost''\<rparr>,
                    agent_result True ''B''])"
    by code_simp
  then obtain res where r: "run 1 codegen_only resolve_all (initial_state ghost_tasks) = Some res"
    by auto
  from missing_role_is_recorded_not_fatal [OF a b r] a b c r show ?thesis by blast
qed

text \<open>
  Claim C5 as stated fails. With no agent for the role of the first task, the run goes on,
  dispatches the second task after the fault and returns both results. And when a task
  depends on the task without an agent, the run ends in the deadlock error and the caller
  gets no result at all, whatever the loop had collected (here with executors that settle
  after the microtasks of the round).
\<close>

theorem missing_role_not_fatal_counterexample:
  "executeParallel resolve_all ghost_tasks codegen_only 1
     = Some (Inr [\<lparr>success = False, result_taskId = ''A'', agentName = ''ghost'',
                    error_message = Some ''Agent not found: ghost''\<rparr>,
                  agent_result True ''B''])
   \<and> map_option (history \<circ> final_state)
         (run 1 codegen_only resolve_all (initial_state ghost_tasks))
       = Some [Dispatched ghost_A,
               Recorded ghost_A \<lparr>success = False, result_taskId = ''A'', agentName = ''ghost'',
                                 error_message = Some ''Agent not found: ghost''\<rparr>,
               Dispatched (mkTask ''B'' [] 1),
               Recorded (mkTask ''B'' [] 1) (agent_result True ''B'')]
   \<and> executeParallel resolve_all ghost_chain codegen_only 4 = Some (Inl deadlock_error)
   \<and> map_option (results \<circ> final_state)
         (run 4 codegen_only resolve_all (initial_state ghost_chain))
       = Some [\<lparr>success = False, result_taskId = ''A'', agentName = ''ghost'',
                 error_message = Some ''Agent not found: ghost''\<rparr>,
               agent_result True ''P'']"
  by code_simp

text \<open>
  Claim C10. In a batch with distinct ids, when the executor of a running task \<open>t\<close>
  rejects, a failed result is pushed for \<open>t\<close> and \<open>t\<close> does not enter \<^verbatim>\<open>completed\<close>; a
  task \<open>b\<close> of the queue that depends on \<open>t\<close> is then never ready: every run from there
  on that ends, ends in the deadlock error with \<open>b\<close> still in the queue, and the run does
  end so once every pending promise settles during each wait. When the executor resolves
  instead, whatever the \<^verbatim>\<open>success\<close> flag, \<open>t\<close> enters \<^verbatim>\<open>completed\<close> and \<open>b\<close> is ready as
  soon as its other dependencies are completed.
\<close>

theorem rejected_executor_blocks_dependents:
  assumes "distinct (map task_id tasks)"
    and "reachable maxConcurrency agents tasks st"
    and "t \<in> set (running st)" and "b \<in> set (queue st)"
    and "task_id t \<in> set (dependencies b)"
  shows "results (settle st (Settle t (Rejected msg))) =
        results st @
          [\<lparr>success = False, result_taskId = task_id t,
            agentName = (case assignedAgent t of None \<Rightarrow> ''unknown'' | Some a \<Rightarrow> a),
            error_message = Some msg\<rparr>]
    \<and> task_id t \<notin> set (completed (settle st (Settle t (Rejected msg))))
    \<and> (\<forall>evs sched res.
          run maxConcurrency agents sched (foldl settle (settle st (Settle t (Rejected msg))) evs)
            = Some res \<longrightarrow>
          (\<exists>st'. res = Threw deadlock_error st' \<and> task_id t \<notin> set (completed st') \<and>
                 b \<in> set (queue st') \<and> b \<notin> set (readyTasks st')))
    \<and> (\<forall>evs f n. length (queue st) < n \<longrightarrow>
          (\<exists>st'. run maxConcurrency agents (replicate n (settle_all f))
                   (foldl settle (settle st (Settle t (Rejected msg))) evs)
                 = Some (Threw deadlock_error st')))
    \<and> (\<forall>r. task_id t \<in> set (completed (settle st (Settle t (Resolved r)))) \<and>
            (set (dependencies b) \<subseteq> insert (task_id t) (set (completed st)) \<longrightarrow>
               b \<in> set (readyTasks (settle st (Settle t (Resolved r))))))"
proof -
  let ?st' = "settle st (Settle t (Rejected msg))"
  have u: "unique_inv st" using assms(2,1) by (rule reachable_unique_inv)
  have s: "stuck t b ?st'" using u assms(3,4,5) by (rule rejected_stuck)
  have 1: "results ?st' =
        results st @
          [\<lparr>success = False, result_taskId = task_id t,
            agentName = (case assignedAgent t of None \<Rightarrow> ''unknown'' | Some a \<Rightarrow> a),
            error_message = Some msg\<rparr>]"
    using assms(3) by (simp add: settle_Rejected_fields failure_result_def)
  have 3: "task_id t \<notin> set (completed ?st')"
    using s by (simp add: stuck_def blocked_by_def)
  have 4: "\<exists>st'. res = Threw deadlock_error st' \<and> task_id t \<notin> set (completed st') \<and>
                 b \<in> set (queue st') \<and> b \<notin> set (readyTasks st')"
    if "run maxConcurrency agents sched (foldl settle ?st' evs) = Some res" for evs sched res
  proof -
    have "stuck t b (foldl settle ?st' evs)" using s by (rule foldl_settle_stuck)
    from run_stuck [OF this that] obtain st' where "res = Threw deadlock_error st'"
      and st': "stuck t b st'" by blast
    with stuck_not_ready [OF st'] show ?thesis
      by (auto simp: stuck_def blocked_by_def)
  qed
  have 5: "\<exists>st'. run maxConcurrency agents (replicate n (settle_all f)) (foldl settle ?st' evs)
                 = Some (Threw deadlock_error st')"
    if "length (queue st) < n" for evs f n
  proof -
    let ?s = "foldl settle ?st' evs"
    have "unique_inv ?s"
      using u by (intro foldl_settle_unique_inv settle_unique_inv)
    moreover have "stuck t b ?s" using s by (rule foldl_settle_stuck)
    moreover have "length (queue ?s) + (if inProgress ?s = [] then 0 else 1) \<le> n"
      using that by simp
    ultimately show ?thesis by (rule run_settle_all_deadlock)
  qed
  have 6: "task_id t \<in> set (completed (settle st (Settle t (Resolved r)))) \<and>
            (set (dependencies b) \<subseteq> insert (task_id t) (set (completed st)) \<longrightarrow>
               b \<in> set (readyTasks (settle st (Settle t (Resolved r)))))" for r
    using assms(3,4) by (simp add: settle_Resolved_fields readyTasks_iff)
  from 1 3 4 5 6 show ?thesis by blast
qed

lemma chain_round1_reachable: "reachable 1 codegen_only chain_tasks chain_round1"
proof -
  have 1: "loop_body 1 codegen_only (initial_state chain_tasks) = Continue chain_round1"
    by code_simp
  have c1: "length (queue (initial_state chain_tasks)) > 0 \<or>
            length (inProgress (initial_state chain_tasks)) > 0"
    by code_simp
  show ?thesis using reach_round [OF reach_init c1 1] .
qed

theorem rejected_executor_blocks_dependents_witness:
  "distinct (map task_id chain_tasks)
   \<and> reachable 1 codegen_only chain_tasks chain_round1
   \<and> task_A \<in> set (running chain_round1)
   \<and> mkTask ''B'' [''A''] 1 \<in> set (queue chain_round1)
   \<and> task_id task_A \<in> set (dependencies (mkTask ''B'' [''A''] 1))
   \<and> results (settle chain_round1 reject_A) =
       [\<lparr>success = False, result_taskId = ''A'', agentName = ''unknown'',
         error_message = Some ''boom''\<rparr>]
   \<and> completed (settle chain_round1 reject_A) = []
   \<and> map_option promise_of (run 1 codegen_only [] (settle chain_round1 reject_A))
       = Some (Inl deadlock_error)"
proof -
  have d: "distinct (map task_id chain_tasks)" by code_simp
  have r: "task_A \<in> set (running chain_round1)" by code_simp
  have q: "mkTask ''B'' [''A''] 1 \<in> set (queue chain_round1)" by code_simp
  have e: "task_id task_A \<in> set (dependencies (mkTask ''B'' [''A''] 1))" by code_simp
  have c: "completed (settle chain_round1 reject_A) = []" by code_simp
  have p: "map_option promise_of (run 1 codegen_only [] (settle chain_round1 reject_A))
       = Some (Inl deadlock_error)" by code_simp
  have "results chain_round1 = []" by code_simp
  with rejected_executor_blocks_dependents [OF d chain_round1_reachable r q e, of "''boom''"]
  have "results (settle chain_round1 reject_A) =
       [\<lparr>success = False, result_taskId = ''A'', agentName = ''unknown'',
         error_message = Some ''boom''\<rparr>]"
    by (simp add: reject_A_def task_A_def mkTask_def)
  with d chain_round1_reachable r q e c p show ?thesis by blast
qed

end
